theory Spec2Isabelle
  imports Complex_Main "HOL-Library.Word" "HOL-Library.Log_Nat"
begin

unbundle bit_operations_syntax

section \<open>The C type \<open>float\<close>\<close>

text \<open>
  The parking-sensor algorithm computes with the C type \<open>float\<close>. It is modelled as
  IEEE 754 binary32 with round-to-nearest-even: a value is a real number (\<open>Fin\<close>), an
  infinity or NaN, and every arithmetic operation rounds its exact result with \<open>fl32\<close>
  (24 bits of precision, gradual underflow at \<open>2 powi -149\<close>, overflow to an infinity
  beyond \<open>FLT_MAX\<close>). Each operation is rounded on its own (no contraction into a fused
  multiply-add, no excess precision). The sign of a zero is not represented; a zero
  divisor is taken as \<open>+0\<close>, which is what the conversion of the integer 0 gives.
\<close>

datatype cfloat = Fin real | PInf | NInf | NaN

definition rne :: "real \<Rightarrow> int" where
  \<comment> \<open>round to the nearest integer, ties to even\<close>
  "rne x = (let f = \<lfloor>x\<rfloor>; d = x - of_int f in
             if d < 1/2 then f else if 1/2 < d then f + 1
             else if even f then f else f + 1)"

definition ilog2 :: "real \<Rightarrow> int" where
  \<comment> \<open>\<open>\<lfloor>log 2 x\<rfloor>\<close> for \<open>0 < x\<close>, computed on integers\<close>
  "ilog2 x = (if 1 \<le> x then bitlen \<lfloor>x\<rfloor> - 1 else - bitlen (\<lceil>1 / x\<rceil> - 1))"

definition ulp_exp :: "real \<Rightarrow> int" where
  \<comment> \<open>exponent of the unit in the last place of the binary32 numbers around \<open>x\<close>\<close>
  "ulp_exp x = max (- 149) (ilog2 \<bar>x\<bar> - 23)"

definition round32 :: "real \<Rightarrow> real" where
  "round32 x = (if x = 0 then 0
                else of_int (rne (x / 2 powi ulp_exp x)) * 2 powi ulp_exp x)"

definition FLT_MAX :: real where
  "FLT_MAX = (2 ^ 24 - 1) * 2 ^ 104"

definition fl32 :: "real \<Rightarrow> cfloat" where
  "fl32 x = (let r = round32 x in
              if FLT_MAX < r then PInf else if r < - FLT_MAX then NInf else Fin r)"

fun fneg :: "cfloat \<Rightarrow> cfloat" where
  "fneg (Fin a) = Fin (- a)"
| "fneg PInf = NInf"
| "fneg NInf = PInf"
| "fneg NaN = NaN"

fun fadd :: "cfloat \<Rightarrow> cfloat \<Rightarrow> cfloat" where
  "fadd (Fin a) (Fin b) = fl32 (a + b)"
| "fadd NaN y = NaN"
| "fadd x NaN = NaN"
| "fadd PInf NInf = NaN"
| "fadd NInf PInf = NaN"
| "fadd PInf y = PInf"
| "fadd x PInf = PInf"
| "fadd NInf y = NInf"
| "fadd x NInf = NInf"

definition fsub :: "cfloat \<Rightarrow> cfloat \<Rightarrow> cfloat" where
  "fsub x y = fadd x (fneg y)"

definition signed_inf :: "bool \<Rightarrow> cfloat" where
  "signed_inf positive = (if positive then PInf else NInf)"

fun fmul :: "cfloat \<Rightarrow> cfloat \<Rightarrow> cfloat" where
  "fmul (Fin a) (Fin b) = fl32 (a * b)"
| "fmul NaN y = NaN"
| "fmul x NaN = NaN"
| "fmul (Fin a) PInf = (if a = 0 then NaN else signed_inf (0 < a))"
| "fmul (Fin a) NInf = (if a = 0 then NaN else signed_inf (a < 0))"
| "fmul PInf (Fin b) = (if b = 0 then NaN else signed_inf (0 < b))"
| "fmul NInf (Fin b) = (if b = 0 then NaN else signed_inf (b < 0))"
| "fmul PInf PInf = PInf"
| "fmul PInf NInf = NInf"
| "fmul NInf PInf = NInf"
| "fmul NInf NInf = PInf"

fun fdiv :: "cfloat \<Rightarrow> cfloat \<Rightarrow> cfloat" where
  "fdiv (Fin a) (Fin b) =
     (if b = 0 then (if a = 0 then NaN else signed_inf (0 < a)) else fl32 (a / b))"
| "fdiv NaN y = NaN"
| "fdiv x NaN = NaN"
| "fdiv (Fin a) PInf = Fin 0"
| "fdiv (Fin a) NInf = Fin 0"
| "fdiv PInf (Fin b) = signed_inf (0 \<le> b)"
| "fdiv NInf (Fin b) = signed_inf (b < 0)"
| "fdiv PInf y = NaN"
| "fdiv NInf y = NaN"

text \<open>The comparisons \<open><=\<close>, \<open><\<close>, \<open>>\<close> and \<open>!=\<close> of C: any comparison with NaN but
  \<open>!=\<close> is false.\<close>

fun fle :: "cfloat \<Rightarrow> cfloat \<Rightarrow> bool" where
  "fle (Fin a) (Fin b) = (a \<le> b)"
| "fle NaN y = False"
| "fle x NaN = False"
| "fle NInf y = True"
| "fle x PInf = True"
| "fle PInf y = False"
| "fle x NInf = False"

fun flt :: "cfloat \<Rightarrow> cfloat \<Rightarrow> bool" where
  "flt (Fin a) (Fin b) = (a < b)"
| "flt NaN y = False"
| "flt x NaN = False"
| "flt PInf y = False"
| "flt x NInf = False"
| "flt NInf y = True"
| "flt x PInf = True"

definition fgt :: "cfloat \<Rightarrow> cfloat \<Rightarrow> bool" where
  "fgt x y = flt y x"

definition fne :: "cfloat \<Rightarrow> cfloat \<Rightarrow> bool" where
  "fne x y = (x = NaN \<or> y = NaN \<or> x \<noteq> y)"

definition float_of_int :: "int \<Rightarrow> cfloat" where
  \<comment> \<open>the conversion of an \<open>int\<close> to \<open>float\<close> rounds beyond 24 bits\<close>
  "float_of_int i = fl32 (of_int i)"

definition float_of_u16 :: "16 word \<Rightarrow> cfloat" where
  \<comment> \<open>a \<open>uint16_t\<close> has 16 bits: its conversion is exact\<close>
  "float_of_u16 w = Fin (of_nat (unat w))"

section \<open>Data structures\<close>

record radar_configuration_t =
  start_range :: cfloat
  length_range :: cfloat
  nbr_of_sweeps :: int
  frequency :: int
  sensor :: int

record app_configuration_t =
  calibrate :: bool
  read_calibration_file :: bool
  radar_config :: radar_configuration_t
  loglevel :: int
  calibration_file_name :: string
  time_delay :: int
  delay :: bool

record Datapoint =
  dist :: cfloat
  amp :: cfloat

definition init_configuration :: "int \<Rightarrow> app_configuration_t" where
  \<comment> \<open>the default settings; the log level \<open>ACC_LOG_LEVEL_ERROR\<close> belongs to the sensor library\<close>
  "init_configuration ACC_LOG_LEVEL_ERROR =
     \<lparr>calibrate = False, read_calibration_file = False,
      radar_config = \<lparr>start_range = fl32 (12 / 100), length_range = fl32 (48 / 100),
                       nbr_of_sweeps = 1, frequency = 100, sensor = 1\<rparr>,
      loglevel = ACC_LOG_LEVEL_ERROR, calibration_file_name = ''parking.cal'',
      time_delay = 10, delay = False\<rparr>"

definition MAX_DATA_SIZE :: nat where
  "MAX_DATA_SIZE = 3000"

definition min_u16 :: "16 word \<Rightarrow> 16 word \<Rightarrow> 16 word" where
  \<comment> \<open>\<open>inline uint16_t min(uint16_t a, uint16_t b)\<close>\<close>
  "min_u16 a b = (if a < b then a else b)"

section \<open>Presence classifier\<close>

definition car_present :: "cfloat \<Rightarrow> cfloat \<Rightarrow> cfloat \<Rightarrow> int" where
  "car_present avg_peak_amp avg_calib_amp avg_amp_factor =
     (if fle avg_peak_amp (fmul (fmul avg_calib_amp avg_amp_factor) (float_of_int 4))
      then 0 else 1)"

section \<open>Range mapper and statistics\<close>

text \<open>
  An array argument is the list of its elements; the \<open>length\<close> argument is an \<open>int\<close>,
  as in the source, and the loops visit the indices \<open>0 \<le> i < length\<close>. The raw samples
  are read from a buffer, a function from indices to \<open>uint16_t\<close> values.
\<close>

function format_data_loop ::
  "(nat \<Rightarrow> 16 word) \<Rightarrow> int \<Rightarrow> cfloat \<Rightarrow> cfloat \<Rightarrow> int \<Rightarrow> Datapoint list" where
  "format_data_loop amps length' start step i =
     (if i < length'
      then \<lparr>dist = fadd start (fmul step (float_of_int i)), amp = float_of_u16 (amps (nat i))\<rparr>
           # format_data_loop amps length' start step (i + 1)
      else [])"
  by pat_completeness auto
termination
  by (relation "measure (\<lambda>(amps, length', start, step, i). nat (length' - i))") auto

definition format_data ::
  "(nat \<Rightarrow> 16 word) \<Rightarrow> int \<Rightarrow> cfloat \<Rightarrow> cfloat \<Rightarrow> Datapoint list" where
  "format_data amps length' start end' =
     (let range' = fsub end' start;
          step = fdiv range' (float_of_int length')
      in format_data_loop amps length' start step 0)"

fun sum_amplitude :: "cfloat \<Rightarrow> Datapoint list \<Rightarrow> cfloat" where
  "sum_amplitude s [] = s"
| "sum_amplitude s (d # ds) = sum_amplitude (fadd s (amp d)) ds"

definition get_average_amplitude :: "Datapoint list \<Rightarrow> int \<Rightarrow> cfloat" where
  "get_average_amplitude data length' =
     fdiv (sum_amplitude (Fin 0) (take (nat length') data)) (float_of_int length')"

fun max_peak_loop :: "Datapoint \<Rightarrow> Datapoint list \<Rightarrow> Datapoint" where
  "max_peak_loop mx [] = mx"
| "max_peak_loop mx (d # ds) = max_peak_loop (if fgt (amp d) (amp mx) then d else mx) ds"

definition get_max_peak :: "Datapoint list \<Rightarrow> int \<Rightarrow> Datapoint" where
  "get_max_peak data length' =
     max_peak_loop \<lparr>dist = Fin (- 1), amp = Fin (- 1)\<rparr> (take (nat length') data)"

section \<open>Detection loop\<close>

text \<open>
  \<open>handle_fatal_error\<close> prints its message and exits: a fatal error is a result of its own.
  The sensor service is outside the program: it is given by whether its two creation
  calls succeed and by the sweep that the \<open>k\<close>-th call of
  \<open>acc_service_envelope_get_next\<close> delivers (\<open>None\<close> when its status is not OK). The number of
  samples of a sweep is the \<open>data_length\<close> of the metadata, a \<open>uint16_t\<close>.
\<close>

datatype fatal = Fatal string

record sensor_service =
  sweep_configuration_available :: bool
  service_created :: bool
  envelope_get_next :: "nat \<Rightarrow> 16 word list option"

datatype event = Printf int | Sleep int

definition create_sensor_service :: "sensor_service \<Rightarrow> fatal + unit" where
  "create_sensor_service service =
     (if \<not> sweep_configuration_available service
      then Inl (Fatal ''Sweep configuration not available'')
      else if \<not> service_created service
      then Inl (Fatal ''acc_service_create() failed.'')
      else Inr ())"

definition get_one_sweep ::
  "sensor_service \<Rightarrow> nat \<Rightarrow> (nat \<Rightarrow> 16 word) \<Rightarrow> 16 word
     \<Rightarrow> fatal + 16 word \<times> (nat \<Rightarrow> 16 word)" where
  "get_one_sweep service k envelope_data data_length =
     (case envelope_get_next service k of
        None \<Rightarrow> Inl (Fatal ''acc_service_envelope_get_next() failed.'')
      | Some samples \<Rightarrow>
          Inr (min_u16 (word_of_nat (length samples)) data_length,
               \<lambda>i. if i < length samples then samples ! i else envelope_data i))"

text \<open>
  One acquisition and its classification, the statements that \<open>get_detection\<close> runs before
  and inside its loop: \<open>get_one_sweep\<close>, \<open>format_data\<close>, \<open>get_max_peak\<close>, \<open>car_present\<close>.
  The state is the sample buffer and \<open>data_len\<close>.
\<close>

definition sweep_step ::
  "app_configuration_t \<Rightarrow> sensor_service \<Rightarrow> cfloat \<Rightarrow> cfloat \<Rightarrow> nat
     \<Rightarrow> (nat \<Rightarrow> 16 word) \<Rightarrow> 16 word \<Rightarrow> fatal + (nat \<Rightarrow> 16 word) \<times> 16 word \<times> int" where
  "sweep_step app_config service avg_calib_amp avg_amp_factor k envelope_data data_len =
     (case get_one_sweep service k envelope_data data_len of
        Inl e \<Rightarrow> Inl e
      | Inr (data_len', envelope_data') \<Rightarrow>
          (let start = start_range (radar_config app_config);
               data = format_data envelope_data' (uint data_len') start
                        (fadd start (length_range (radar_config app_config)));
               avg_peak = get_max_peak data (uint data_len');
               result = car_present (amp avg_peak) avg_calib_amp avg_amp_factor
           in Inr (envelope_data', data_len', result)))"

text \<open>
  The \<open>while (first_res != result)\<close> loop has no bound: it is a partial function, \<open>None\<close>
  when it runs forever. \<open>k\<close> counts the sweeps acquired so far; the events are the lines
  printed and the sleeps, in order.
\<close>

partial_function (option) detection_loop ::
  "app_configuration_t \<Rightarrow> sensor_service \<Rightarrow> cfloat \<Rightarrow> cfloat \<Rightarrow> nat
     \<Rightarrow> (nat \<Rightarrow> 16 word) \<Rightarrow> 16 word \<Rightarrow> int \<Rightarrow> int \<Rightarrow> event list
     \<Rightarrow> (fatal + int \<times> nat \<times> event list) option" where
  "detection_loop app_config service avg_calib_amp avg_amp_factor k envelope_data data_len
       first_res result events =
     (if first_res \<noteq> result
      then (case sweep_step app_config service avg_calib_amp avg_amp_factor k envelope_data
                   data_len of
              Inl e \<Rightarrow> Some (Inl e)
            | Inr (envelope_data', data_len', result') \<Rightarrow>
                detection_loop app_config service avg_calib_amp avg_amp_factor (k + 1)
                  envelope_data' data_len' result result'
                  (events @ [Sleep (time_delay app_config), Printf result']))
      else Some (Inr (result, k, events)))"

definition get_detection ::
  "app_configuration_t \<Rightarrow> sensor_service \<Rightarrow> cfloat \<Rightarrow> cfloat \<Rightarrow> (nat \<Rightarrow> 16 word)
     \<Rightarrow> (fatal + int \<times> nat \<times> event list) option" where
  "get_detection app_config service avg_calib_amp avg_amp_factor envelope_data =
     (case create_sensor_service service of
        Inl e \<Rightarrow> Some (Inl e)
      | Inr handle \<Rightarrow>
          (case sweep_step app_config service avg_calib_amp avg_amp_factor 0 envelope_data
                  (word_of_nat MAX_DATA_SIZE) of
             Inl e \<Rightarrow> Some (Inl e)
           | Inr (envelope_data', data_len, result) \<Rightarrow>
               if delay app_config
               then detection_loop app_config service avg_calib_amp avg_amp_factor 1
                      envelope_data' data_len (- 2) result [Printf result]
               else Some (Inr (result, 1, [Printf result]))))"

text \<open>The state after the sweeps \<open>0, \<dots>, k\<close>, when all of them are acquired.\<close>

primrec sweeps_upto ::
  "app_configuration_t \<Rightarrow> sensor_service \<Rightarrow> cfloat \<Rightarrow> cfloat \<Rightarrow> (nat \<Rightarrow> 16 word) \<Rightarrow> nat
     \<Rightarrow> fatal + (nat \<Rightarrow> 16 word) \<times> 16 word \<times> int" where
  "sweeps_upto app_config service avg_calib_amp avg_amp_factor envelope_data 0 =
     sweep_step app_config service avg_calib_amp avg_amp_factor 0 envelope_data
       (word_of_nat MAX_DATA_SIZE)"
| "sweeps_upto app_config service avg_calib_amp avg_amp_factor envelope_data (Suc k) =
     (case sweeps_upto app_config service avg_calib_amp avg_amp_factor envelope_data k of
        Inl e \<Rightarrow> Inl e
      | Inr (envelope_data', data_len, result) \<Rightarrow>
          sweep_step app_config service avg_calib_amp avg_amp_factor (Suc k) envelope_data'
            data_len)"

definition sweep_class ::
  "app_configuration_t \<Rightarrow> sensor_service \<Rightarrow> cfloat \<Rightarrow> cfloat \<Rightarrow> (nat \<Rightarrow> 16 word) \<Rightarrow> nat
     \<Rightarrow> int option" where
  \<comment> \<open>the classification of sweep \<open>k\<close>\<close>
  "sweep_class app_config service avg_calib_amp avg_amp_factor envelope_data k =
     (case sweeps_upto app_config service avg_calib_amp avg_amp_factor envelope_data k of
        Inl e \<Rightarrow> None
      | Inr (envelope_data', data_len, result) \<Rightarrow> Some result)"

section \<open>Calibration file: text input and output\<close>

text \<open>
  A file is the string of its characters; a stream is the string that remains to be read.
  The C library calls are modelled by what the C standard says of them, for the three
  formats of the program. \<open>fscanf\<close> returns \<open>EOF\<close> on an input failure before the first
  conversion, else the number of items assigned. A white-space directive skips white
  space; an ordinary character must match the next one; a conversion skips white space,
  takes the longest sequence of characters that is a numeral or the beginning of one, and
  fails to match when that sequence is not a numeral. The numerals of \<open>%u\<close> and \<open>%hu\<close> are
  an optional sign and decimal digits. Those of \<open>%f\<close> are the ones of \<open>strtod\<close>: an optional
  sign, then decimal digits with an optional fraction and an optional exponent \<open>e\<close>, or
  \<open>0x\<close> and hexadecimal digits with an optional fraction and an optional binary exponent
  \<open>p\<close>, or \<open>inf\<close>, \<open>infinity\<close>, \<open>nan\<close>, \<open>nan(...)\<close> in any case of the letters. An integer that
  does not fit its variable is reduced modulo the word size.
\<close>

definition EOF :: int where
  "EOF = - 1"

definition newline :: char where
  "newline = CHR 0x0A"

definition isspace :: "char \<Rightarrow> bool" where
  "isspace c = (c = CHR '' '' \<or> (9 \<le> (of_char c :: nat) \<and> (of_char c :: nat) \<le> 13))"

definition isdigit :: "char \<Rightarrow> bool" where
  "isdigit c = (48 \<le> (of_char c :: nat) \<and> (of_char c :: nat) \<le> 57)"

definition digit_val :: "char \<Rightarrow> nat" where
  "digit_val c = of_char c - 48"

definition digits_val :: "string \<Rightarrow> nat" where
  "digits_val ds = foldl (\<lambda>a c. 10 * a + digit_val c) 0 ds"

definition skip_space :: "string \<Rightarrow> string" where
  "skip_space fin = dropWhile isspace fin"

datatype 'a scanned = Converted 'a string | Matching_failure string | Input_failure

fun match_literal :: "string \<Rightarrow> string \<Rightarrow> unit scanned" where
  "match_literal [] fin = Converted () fin"
| "match_literal (c # cs) [] = Input_failure"
| "match_literal (c # cs) (d # ds) =
     (if c = d then match_literal cs ds else Matching_failure (d # ds))"

definition scan_sign :: "string \<Rightarrow> bool \<times> string" where
  \<comment> \<open>an optional sign; \<open>True\<close> for \<open>-\<close>\<close>
  "scan_sign fin =
     (case fin of
        [] \<Rightarrow> (False, [])
      | c # cs \<Rightarrow> if c = CHR ''-'' then (True, cs) else if c = CHR ''+'' then (False, cs)
                 else (False, fin))"

definition scan_integer :: "string \<Rightarrow> int scanned" where
  \<comment> \<open>the conversions \<open>%u\<close> and \<open>%hu\<close> before the assignment\<close>
  "scan_integer fin =
     (if skip_space fin = [] then Input_failure
      else (case scan_sign (skip_space fin) of
              (negative, rest) \<Rightarrow>
                if takeWhile isdigit rest = [] then Matching_failure rest
                else Converted
                       (if negative then - int (digits_val (takeWhile isdigit rest))
                        else int (digits_val (takeWhile isdigit rest)))
                       (dropWhile isdigit rest)))"

definition isxdigit :: "char \<Rightarrow> bool" where
  "isxdigit c = (isdigit c \<or> (65 \<le> (of_char c :: nat) \<and> (of_char c :: nat) \<le> 70)
                 \<or> (97 \<le> (of_char c :: nat) \<and> (of_char c :: nat) \<le> 102))"

definition xdigit_val :: "char \<Rightarrow> nat" where
  "xdigit_val c = (if isdigit c then of_char c - 48
                   else if 97 \<le> (of_char c :: nat) then of_char c - 87 else of_char c - 55)"

definition xdigits_val :: "string \<Rightarrow> nat" where
  "xdigits_val ds = foldl (\<lambda>a c. 16 * a + xdigit_val c) 0 ds"

definition isnchar :: "char \<Rightarrow> bool" where
  \<comment> \<open>a digit, a letter or the underscore\<close>
  "isnchar c = (isdigit c \<or> (65 \<le> (of_char c :: nat) \<and> (of_char c :: nat) \<le> 90)
                \<or> (97 \<le> (of_char c :: nat) \<and> (of_char c :: nat) \<le> 122) \<or> c = CHR ''_'')"

fun match_word :: "string \<Rightarrow> string \<Rightarrow> string \<Rightarrow> nat" where
  \<comment> \<open>how many characters of a word, given in lower and in upper case, the stream starts with\<close>
  "match_word (l # ls) (u # us) (c # cs) =
     (if c = l \<or> c = u then Suc (match_word ls us cs) else 0)"
| "match_word ls us cs = 0"

definition scan_fraction :: "(char \<Rightarrow> bool) \<Rightarrow> string \<Rightarrow> string \<times> string" where
  \<comment> \<open>the digits after a decimal point, if there is one\<close>
  "scan_fraction digit fin =
     (case fin of
        [] \<Rightarrow> ([], [])
      | c # cs \<Rightarrow> if c = CHR ''.'' then (takeWhile digit cs, dropWhile digit cs)
                 else ([], fin))"

definition scan_exponent :: "char \<Rightarrow> char \<Rightarrow> string \<Rightarrow> int option \<times> string" where
  \<comment> \<open>an optional exponent part: the letter, an optional sign and decimal digits; \<open>None\<close>
      when the letter is there and the digits are not\<close>
  "scan_exponent lower upper fin =
     (case fin of
        [] \<Rightarrow> (Some 0, [])
      | c # cs \<Rightarrow>
          if c = lower \<or> c = upper
          then (case scan_sign cs of
                  (negative, rest) \<Rightarrow>
                    if takeWhile isdigit rest = [] then (None, rest)
                    else (Some (if negative then - int (digits_val (takeWhile isdigit rest))
                                else int (digits_val (takeWhile isdigit rest))),
                          dropWhile isdigit rest))
          else (Some 0, fin))"

definition scan_number ::
  "(char \<Rightarrow> bool) \<Rightarrow> (string \<Rightarrow> nat) \<Rightarrow> real \<Rightarrow> char \<Rightarrow> char \<Rightarrow> real \<Rightarrow> bool \<Rightarrow> string
     \<Rightarrow> cfloat scanned" where
  \<comment> \<open>digits with an optional fraction and an optional exponent, rounded to \<open>float\<close>\<close>
  "scan_number digit val base lower upper ebase negative fin =
     (case scan_fraction digit (dropWhile digit fin) of
        (fraction, rest) \<Rightarrow>
          if takeWhile digit fin = [] \<and> fraction = [] then Matching_failure rest
          else (case scan_exponent lower upper rest of
                  (None, rest') \<Rightarrow> Matching_failure rest'
                | (Some e, rest') \<Rightarrow>
                    Converted
                      (fl32 ((if negative then - 1 else 1)
                             * (of_nat (val (takeWhile digit fin @ fraction))
                                / base ^ length fraction)
                             * ebase powi e))
                      rest'))"

definition scan_infinity :: "bool \<Rightarrow> string \<Rightarrow> cfloat scanned" where
  \<comment> \<open>\<open>inf\<close> or \<open>infinity\<close>, in any case of the letters\<close>
  "scan_infinity negative fin =
     (if match_word ''infinity'' ''INFINITY'' fin = 3 \<or> match_word ''infinity'' ''INFINITY'' fin = 8
      then Converted (if negative then NInf else PInf)
             (drop (match_word ''infinity'' ''INFINITY'' fin) fin)
      else Matching_failure (drop (match_word ''infinity'' ''INFINITY'' fin) fin))"

definition scan_nan :: "string \<Rightarrow> cfloat scanned" where
  \<comment> \<open>\<open>nan\<close> or \<open>nan(...)\<close>, in any case of the letters\<close>
  "scan_nan fin =
     (if match_word ''nan'' ''NAN'' fin < 3
      then Matching_failure (drop (match_word ''nan'' ''NAN'' fin) fin)
      else (case drop 3 fin of
              [] \<Rightarrow> Converted NaN []
            | c # cs \<Rightarrow>
                if c = CHR ''(''
                then (case dropWhile isnchar cs of
                        [] \<Rightarrow> Matching_failure []
                      | d # ds \<Rightarrow> if d = CHR '')'' then Converted NaN ds
                                 else Matching_failure (d # ds))
                else Converted NaN (c # cs)))"

definition hexadecimal_prefix :: "string \<Rightarrow> bool" where
  "hexadecimal_prefix fin =
     (case fin of
        [] \<Rightarrow> False
      | c # cs \<Rightarrow> (case cs of
                    [] \<Rightarrow> False
                  | d # ds \<Rightarrow> c = CHR ''0'' \<and> (d = CHR ''x'' \<or> d = CHR ''X'')))"

definition scan_float :: "string \<Rightarrow> cfloat scanned" where
  \<comment> \<open>the conversion \<open>%f\<close>: the numeral, rounded to \<open>float\<close>\<close>
  "scan_float fin =
     (if skip_space fin = [] then Input_failure
      else (case scan_sign (skip_space fin) of
              (negative, rest) \<Rightarrow>
                if 0 < match_word ''infinity'' ''INFINITY'' rest then scan_infinity negative rest
                else if 0 < match_word ''nan'' ''NAN'' rest then scan_nan rest
                else if hexadecimal_prefix rest
                then scan_number isxdigit xdigits_val 16 CHR ''p'' CHR ''P'' 2 negative (drop 2 rest)
                else scan_number isdigit digits_val 10 CHR ''e'' CHR ''E'' 10 negative rest))"

definition fscanf_keyword_f :: "string \<Rightarrow> string \<Rightarrow> int \<times> cfloat option \<times> string" where
  \<comment> \<open>\<open>fscanf(fin, "keyword %f\n", &x)\<close>: the value returned, the value assigned, the stream\<close>
  "fscanf_keyword_f keyword fin =
     (case match_literal keyword fin of
        Input_failure \<Rightarrow> (EOF, None, [])
      | Matching_failure rest \<Rightarrow> (0, None, rest)
      | Converted u rest \<Rightarrow>
          (case scan_float rest of
             Input_failure \<Rightarrow> (EOF, None, [])
           | Matching_failure rest' \<Rightarrow> (0, None, rest')
           | Converted x rest' \<Rightarrow> (1, Some x, skip_space rest')))"

definition fscanf_keyword_u :: "string \<Rightarrow> string \<Rightarrow> int \<times> 32 word option \<times> string" where
  \<comment> \<open>\<open>fscanf(fin, "keyword %u\n", &n)\<close>\<close>
  "fscanf_keyword_u keyword fin =
     (case match_literal keyword fin of
        Input_failure \<Rightarrow> (EOF, None, [])
      | Matching_failure rest \<Rightarrow> (0, None, rest)
      | Converted u rest \<Rightarrow>
          (case scan_integer rest of
             Input_failure \<Rightarrow> (EOF, None, [])
           | Matching_failure rest' \<Rightarrow> (0, None, rest')
           | Converted x rest' \<Rightarrow> (1, Some (word_of_int x), skip_space rest')))"

definition fscanf_hu :: "string \<Rightarrow> int \<times> 16 word option \<times> string" where
  \<comment> \<open>\<open>fscanf(fin, "%hu", &threshold_data[i])\<close>\<close>
  "fscanf_hu fin =
     (case scan_integer fin of
        Input_failure \<Rightarrow> (EOF, None, [])
      | Matching_failure rest \<Rightarrow> (0, None, rest)
      | Converted x rest \<Rightarrow> (1, Some (word_of_int x), rest))"

text \<open>
  \<open>fprintf\<close>: a decimal integer, and a \<open>float\<close> in the style \<open>%f\<close> with a given number of
  digits after the point (6 for \<open>%f\<close>, 2 for \<open>%1.2f\<close>), the exact value rounded to nearest,
  ties to even.
\<close>

definition digit_char :: "nat \<Rightarrow> char" where
  "digit_char d = ''0123456789'' ! d"

fun decimal :: "nat \<Rightarrow> string" where
  "decimal n = (if n < 10 then [digit_char n] else decimal (n div 10) @ [digit_char (n mod 10)])"

definition fixed_point :: "nat \<Rightarrow> real \<Rightarrow> string" where
  "fixed_point precision x =
     (if x < 0 then ''-'' else [])
     @ decimal (nat (rne (\<bar>x\<bar> * 10 ^ precision)) div 10 ^ precision)
     @ (if precision = 0 then []
        else ''.''
          @ replicate
              (precision - length (decimal (nat (rne (\<bar>x\<bar> * 10 ^ precision)) mod 10 ^ precision)))
              CHR ''0''
          @ decimal (nat (rne (\<bar>x\<bar> * 10 ^ precision)) mod 10 ^ precision))"

fun fprintf_f :: "nat \<Rightarrow> cfloat \<Rightarrow> string" where
  "fprintf_f precision (Fin x) = fixed_point precision x"
| "fprintf_f precision PInf = ''inf''"
| "fprintf_f precision NInf = ''-inf''"
| "fprintf_f precision NaN = ''nan''"

section \<open>Calibration: writing and reading\<close>

text \<open>
  \<open>write_calibration_data\<close> opens the file, acquires one sweep and prints the record; the
  result is the text written. \<open>fout_opened\<close> says whether \<open>fopen\<close> succeeded.
\<close>

definition write_calibration_data ::
  "app_configuration_t \<Rightarrow> sensor_service \<Rightarrow> bool \<Rightarrow> (nat \<Rightarrow> 16 word) \<Rightarrow> fatal + string" where
  "write_calibration_data app_config service fout_opened data =
     (case create_sensor_service service of
        Inl e \<Rightarrow> Inl e
      | Inr handle \<Rightarrow>
          (case get_one_sweep service 0 data (word_of_nat MAX_DATA_SIZE) of
             Inl e \<Rightarrow> Inl e
           | Inr (data_len, data') \<Rightarrow>
               if \<not> fout_opened
               then Inl (Fatal (''Unable to write calibration data to file'' @ [newline]))
               else Inr (''start '' @ fprintf_f 6 (start_range (radar_config app_config))
                         @ [newline]
                         @ ''length '' @ fprintf_f 6 (length_range (radar_config app_config))
                         @ [newline]
                         @ ''n '' @ decimal (unat data_len) @ [newline]
                         @ concat (map (\<lambda>i. decimal (unat (data' i)) @ '' '')
                                     [0..<unat data_len]))))"

text \<open>
  The loop that reads the samples: \<open>res\<close> is a \<open>uint16_t\<close> to which the \<open>int\<close> that \<open>fscanf\<close>
  returns is added; \<open>stores\<close> lists the indices of \<open>threshold_data\<close> that were written.
  The buffer \<open>threshold_data\<close> is declared with \<open>MAX_DATA_SIZE\<close> elements; it is modelled by
  a function on all indices, so that a store beyond the array is visible.
\<close>

function scan_samples ::
  "32 word \<Rightarrow> nat \<Rightarrow> 16 word \<Rightarrow> (nat \<Rightarrow> 16 word) \<Rightarrow> nat list \<Rightarrow> string
     \<Rightarrow> 16 word \<times> (nat \<Rightarrow> 16 word) \<times> nat list \<times> string" where
  "scan_samples n i res threshold_data stores fin =
     (if i < unat n
      then (case fscanf_hu fin of
              (ret, assigned, fin') \<Rightarrow>
                scan_samples n (i + 1) (res + word_of_int ret)
                  (case assigned of None \<Rightarrow> threshold_data
                   | Some x \<Rightarrow> threshold_data(i := x))
                  (case assigned of None \<Rightarrow> stores | Some x \<Rightarrow> stores @ [i])
                  fin')
      else (res, threshold_data, stores, fin))"
  by pat_completeness auto
termination
  by (relation "measure (\<lambda>(n, i, res, threshold_data, stores, fin). unat n - i)") auto

text \<open>
  The first part of \<open>read_and_calculate_threshold\<close>, up to the second format check: the
  header, the samples and the two comparisons of \<open>res\<close>. It yields \<open>start\<close>, \<open>length\<close>, \<open>n\<close>,
  the buffer and the indices stored.
\<close>

definition format_error :: fatal where
  "format_error = Fatal (''Calibration data file format error.'' @ [newline])"

definition scan_calibration ::
  "string option \<Rightarrow> (nat \<Rightarrow> 16 word)
     \<Rightarrow> fatal + cfloat \<times> cfloat \<times> 32 word \<times> (nat \<Rightarrow> 16 word) \<times> nat list" where
  "scan_calibration file threshold_data =
     (case file of
        None \<Rightarrow> Inl (Fatal ''Unable to read calibration data file'')
      | Some fin \<Rightarrow>
          (case fscanf_keyword_f ''start'' fin of
             (ret1, start, fin1) \<Rightarrow>
               (case fscanf_keyword_f ''length'' fin1 of
                  (ret2, length', fin2) \<Rightarrow>
                    (case fscanf_keyword_u ''n'' fin2 of
                       (ret3, n, fin3) \<Rightarrow>
                         if (word_of_int ret1 + word_of_int ret2 + word_of_int ret3 :: 16 word)
                              \<noteq> 3
                         then Inl format_error
                         else (case (start, length', n) of
                                 (Some start, Some length', Some n) \<Rightarrow>
                                   (case scan_samples n 0 0 threshold_data [] fin3 of
                                      (res, threshold_data', stores, fin4) \<Rightarrow>
                                        if unat res \<noteq> unat n then Inl format_error
                                        else Inr (start, length', n, threshold_data', stores))
                               | _ \<Rightarrow> Inl format_error)))))"

definition memset_zero :: "(nat \<Rightarrow> 16 word) \<Rightarrow> nat \<Rightarrow> (nat \<Rightarrow> 16 word)" where
  \<comment> \<open>\<open>memset(threshold_data, 0, n)\<close> clears \<open>n\<close> bytes, two to an element; of an element
      cut in half the low byte, which comes first on the little-endian targets\<close>
  "memset_zero threshold_data n =
     (\<lambda>i. if 2 * i + 1 < n then 0
          else if 2 * i < n then threshold_data i AND 0xFF00
          else threshold_data i)"

record threshold =
  config :: app_configuration_t
  avg_calib_amp :: cfloat
  peak_amp :: Datapoint
  avg_amp_factor :: cfloat
  printed :: "string list"
  stored :: "nat list"

definition adjust_start_range :: "cfloat \<Rightarrow> app_configuration_t \<Rightarrow> app_configuration_t" where
  "adjust_start_range start app_config =
     (if fne start (start_range (radar_config app_config))
      then app_config\<lparr>radar_config := (radar_config app_config)\<lparr>start_range := start\<rparr>\<rparr>
      else app_config)"

definition adjust_length_range :: "cfloat \<Rightarrow> app_configuration_t \<Rightarrow> app_configuration_t" where
  "adjust_length_range length' app_config =
     (if flt length' (length_range (radar_config app_config))
      then app_config\<lparr>radar_config := (radar_config app_config)\<lparr>length_range := length'\<rparr>\<rparr>
      else app_config)"

definition read_and_calculate_threshold ::
  "app_configuration_t \<Rightarrow> string option \<Rightarrow> (nat \<Rightarrow> 16 word) \<Rightarrow> fatal + threshold" where
  "read_and_calculate_threshold app_config file threshold_data =
     (case scan_calibration file threshold_data of
        Inl e \<Rightarrow> Inl e
      | Inr (start, length', n, threshold_data', stores) \<Rightarrow>
          (let app_config1 = adjust_start_range start app_config;
               app_config2 = adjust_length_range length' app_config1;
               n' = min_u16 (ucast n) (word_of_nat MAX_DATA_SIZE);
               threshold_data'' = memset_zero threshold_data' (unat n');
               th_data = format_data threshold_data'' (uint n')
                           (start_range (radar_config app_config2))
                           (fadd (start_range (radar_config app_config2))
                              (length_range (radar_config app_config2)));
               avg = get_average_amplitude th_data (uint n');
               peak = get_max_peak th_data (uint n')
           in Inr \<lparr>config = app_config2,
                    avg_calib_amp = avg,
                    peak_amp = peak,
                    avg_amp_factor = fdiv (amp peak) avg,
                    printed =
                      (if fne start (start_range (radar_config app_config))
                       then [''Setting start_range to '' @ fprintf_f 2 start
                             @ '' due to calibration file'' @ [newline]]
                       else [])
                      @ (if flt length' (length_range (radar_config app_config1))
                         then [''Setting length_range to '' @ fprintf_f 2 length'
                               @ '' due to calibration file'' @ [newline]]
                         else []),
                    stored = stores\<rparr>))"

declare decimal.simps [simp del]

declare scan_samples.simps [simp del]

section \<open>Facts about the float operations\<close>

text \<open>Rewrite rules that evaluate the operations on numerals.\<close>

lemma fl32_unfold:
  "fl32 x = (if FLT_MAX < round32 x then PInf
             else if round32 x < - FLT_MAX then NInf else Fin (round32 x))"
  by (simp add: fl32_def Let_def)

lemma rne_unfold:
  "rne x = (if x - of_int \<lfloor>x\<rfloor> < 1/2 then \<lfloor>x\<rfloor>
            else if 1/2 < x - of_int \<lfloor>x\<rfloor> then \<lfloor>x\<rfloor> + 1
            else if even \<lfloor>x\<rfloor> then \<lfloor>x\<rfloor> else \<lfloor>x\<rfloor> + 1)"
  by (simp add: rne_def Let_def)

lemma bitlen_pos: "0 < x \<Longrightarrow> bitlen x = bitlen (x div 2) + 1"
  by (subst compute_bitlen) simp

lemma bitlen_nonpos: "x \<le> 0 \<Longrightarrow> bitlen x = 0"
  by (subst compute_bitlen) simp

lemmas fl32_eval =
  fl32_unfold FLT_MAX_def round32_def ulp_exp_def ilog2_def rne_unfold bitlen_pos bitlen_nonpos
  float_of_int_def float_of_u16_def

declare format_data_loop.simps [simp del]

lemma format_data_loop_step:
  "i < n \<Longrightarrow> format_data_loop amps n start step i =
     \<lparr>dist = fadd start (fmul step (float_of_int i)), amp = float_of_u16 (amps (nat i))\<rparr>
     # format_data_loop amps n start step (i + 1)"
  by (subst format_data_loop.simps) simp

lemma format_data_loop_done: "\<not> i < n \<Longrightarrow> format_data_loop amps n start step i = []"
  by (subst format_data_loop.simps) simp

lemma format_data_unfold:
  "format_data amps n start end' =
     format_data_loop amps n start (fdiv (fsub end' start) (float_of_int n)) 0"
  by (simp add: format_data_def Let_def)

lemma sweep_step_unfold:
  "sweep_step app_config service ca fa k envelope_data data_len =
     (case envelope_get_next service k of
        None \<Rightarrow> Inl (Fatal ''acc_service_envelope_get_next() failed.'')
      | Some samples \<Rightarrow>
          Inr (\<lambda>i. if i < length samples then samples ! i else envelope_data i,
               min_u16 (word_of_nat (length samples)) data_len,
               car_present
                 (amp (get_max_peak
                    (format_data (\<lambda>i. if i < length samples then samples ! i else envelope_data i)
                       (uint (min_u16 (word_of_nat (length samples)) data_len))
                       (start_range (radar_config app_config))
                       (fadd (start_range (radar_config app_config))
                          (length_range (radar_config app_config))))
                    (uint (min_u16 (word_of_nat (length samples)) data_len))))
                 ca fa))"
  by (simp add: sweep_step_def get_one_sweep_def Let_def split: option.splits)

lemma format_data_loop_map:
  "i \<le> nat n \<Longrightarrow>
   format_data_loop amps n start step (int i) =
     map (\<lambda>k. \<lparr>dist = fadd start (fmul step (float_of_int (int k))),
                amp = float_of_u16 (amps k)\<rparr>) [i..<nat n]"
proof (induction "nat n - i" arbitrary: i)
  case 0
  then have "\<not> int i < n" by simp
  then show ?case using 0 by (simp add: format_data_loop_done)
next
  case (Suc m)
  then have lt: "int i < n" and le: "Suc i \<le> nat n" and m: "m = nat n - Suc i" by simp_all
  have "format_data_loop amps n start step (int i) =
      \<lparr>dist = fadd start (fmul step (float_of_int (int i))), amp = float_of_u16 (amps (nat (int i)))\<rparr>
      # format_data_loop amps n start step (int i + 1)"
    by (rule format_data_loop_step [OF lt])
  moreover have "format_data_loop amps n start step (int (Suc i)) =
     map (\<lambda>k. \<lparr>dist = fadd start (fmul step (float_of_int (int k))),
                amp = float_of_u16 (amps k)\<rparr>) [Suc i..<nat n]"
    by (rule Suc.hyps(1) [OF m le])
  moreover have "int i + 1 = int (Suc i)" by simp
  moreover have "[i..<nat n] = i # [Suc i..<nat n]" using le by (simp add: upt_conv_Cons)
  ultimately show ?case by simp
qed

lemma format_data_map:
  "format_data amps n start end' =
     map (\<lambda>k. \<lparr>dist = fadd start (fmul (fdiv (fsub end' start) (float_of_int n))
                                     (float_of_int (int k))),
                amp = float_of_u16 (amps k)\<rparr>) [0..<nat n]"
  using format_data_loop_map [of 0 n amps start "fdiv (fsub end' start) (float_of_int n)"]
  by (simp add: format_data_unfold)


lemma float_of_u16_nonneg: "fle (Fin 0) (float_of_u16 w)"
  unfolding float_of_u16_def fle.simps by (rule of_nat_0_le_iff)

lemma format_data_amp_nonneg:
  "\<forall>d \<in> set (format_data amps n start end'). fle (Fin 0) (amp d)"
  by (simp add: format_data_map float_of_u16_nonneg)

lemmas run_eval =
  format_data_unfold format_data_loop_step format_data_loop_done fsub_def fgt_def
  get_max_peak_def car_present_def min_u16_def fl32_eval

lemma fl32_not_NaN [simp]: "fl32 x \<noteq> NaN"
  by (simp add: fl32_def Let_def)

lemma float_of_int_4: "float_of_int 4 = Fin 4"
  by (simp add: fl32_eval)

lemma not_fle_iff_flt: "x \<noteq> NaN \<Longrightarrow> y \<noteq> NaN \<Longrightarrow> (\<not> fle x y) = flt y x"
  by (cases x; cases y) auto

lemma not_flt_iff_fle: "x \<noteq> NaN \<Longrightarrow> y \<noteq> NaN \<Longrightarrow> (\<not> flt x y) = fle y x"
  by (cases x; cases y) auto

lemma flt_trans: "flt x y \<Longrightarrow> flt y z \<Longrightarrow> flt x z"
  by (cases x; cases y; cases z) auto

lemma fle_flt_trans: "fle x y \<Longrightarrow> flt y z \<Longrightarrow> flt x z"
  by (cases x; cases y; cases z) auto

lemma flt_fle_trans: "flt x y \<Longrightarrow> fle y z \<Longrightarrow> flt x z"
  by (cases x; cases y; cases z) auto

lemma flt_imp_fle: "flt x y \<Longrightarrow> fle x y"
  by (cases x; cases y) auto

lemma fle_trans: "fle x y \<Longrightarrow> fle y z \<Longrightarrow> fle x z"
  by (cases x; cases y; cases z) auto

lemma fle_refl: "x \<noteq> NaN \<Longrightarrow> fle x x"
  by (cases x) auto

lemma flt_not_NaN: "flt x y \<Longrightarrow> x \<noteq> NaN \<and> y \<noteq> NaN"
  by (cases x; cases y) auto

lemma fle_not_NaN: "fle x y \<Longrightarrow> x \<noteq> NaN \<and> y \<noteq> NaN"
  by (cases x; cases y) auto

lemma fmul_finite_not_NaN: "fmul (fmul (Fin b) (Fin r)) (Fin 4) \<noteq> NaN"
  by (cases "fl32 (b * r)") (auto simp: signed_inf_def)

section \<open>The presence classifier\<close>

text \<open>
  Claim C3. \<open>car_present\<close> returns 1 (occupied) or 0 (empty). For all finite inputs it
  returns 1 if and only if the peak amplitude is greater than the product
  \<open>avg_calib_amp * avg_amp_factor * 4\<close>, computed in \<open>float\<close> from left to right, and 0
  otherwise. At the boundary, peak 8 against baseline 2 and ratio 1, it returns 0; for
  peak 10 it returns 1.
\<close>

theorem car_present_rule:
  "car_present (Fin p) (Fin b) (Fin r) =
     (if fgt (Fin p) (fmul (fmul (Fin b) (Fin r)) (Fin 4)) then 1 else 0)
   \<and> car_present (Fin 8) (Fin 2) (Fin 1) = 0
   \<and> car_present (Fin 10) (Fin 2) (Fin 1) = 1"
proof -
  have nn: "fmul (fmul (Fin b) (Fin r)) (Fin 4) \<noteq> NaN"
    by (rule fmul_finite_not_NaN)
  have "(\<not> fle (Fin p) (fmul (fmul (Fin b) (Fin r)) (Fin 4)))
        = flt (fmul (fmul (Fin b) (Fin r)) (Fin 4)) (Fin p)"
    by (rule not_fle_iff_flt) (simp, rule nn)
  then have "car_present (Fin p) (Fin b) (Fin r) =
     (if fgt (Fin p) (fmul (fmul (Fin b) (Fin r)) (Fin 4)) then 1 else 0)"
    unfolding car_present_def float_of_int_4 fgt_def by presburger
  moreover have "car_present (Fin 8) (Fin 2) (Fin 1) = 0"
    by (simp add: car_present_def fl32_eval)
  moreover have "car_present (Fin 10) (Fin 2) (Fin 1) = 1"
    by (simp add: car_present_def fl32_eval)
  ultimately show ?thesis by blast
qed

section \<open>The maximum peak\<close>

lemma max_peak_loop_keep:
  "\<forall>d \<in> set ds. \<not> fgt (amp d) (amp mx) \<Longrightarrow> max_peak_loop mx ds = mx"
  by (induction ds) auto

lemma max_peak_loop_first:
  assumes "amp mx \<noteq> NaN" "\<forall>d \<in> set ds. amp d \<noteq> NaN" "\<exists>d \<in> set ds. fgt (amp d) (amp mx)"
  shows "\<exists>k < length ds. max_peak_loop mx ds = ds ! k
           \<and> fgt (amp (ds ! k)) (amp mx)
           \<and> (\<forall>j < k. flt (amp (ds ! j)) (amp (ds ! k)))
           \<and> (\<forall>j < length ds. fle (amp (ds ! j)) (amp (ds ! k)))"
  using assms
proof (induction ds arbitrary: mx)
  case Nil
  then show ?case by simp
next
  case (Cons d ds)
  define mx' where "mx' = (if fgt (amp d) (amp mx) then d else mx)"
  have step: "max_peak_loop mx (d # ds) = max_peak_loop mx' ds"
    by (simp add: mx'_def)
  have nn_mx: "amp mx \<noteq> NaN" and nn_d: "amp d \<noteq> NaN" and nnds: "\<forall>d \<in> set ds. amp d \<noteq> NaN"
    using Cons.prems by simp_all
  have nn': "amp mx' \<noteq> NaN" using nn_mx nn_d by (simp add: mx'_def)
  have d_le: "fle (amp d) (amp mx')"
  proof (cases "fgt (amp d) (amp mx)")
    case True
    then show ?thesis using fle_refl [OF nn_d] by (simp add: mx'_def)
  next
    case False
    then show ?thesis using not_flt_iff_fle [OF nn_mx nn_d] by (simp add: mx'_def fgt_def)
  qed
  have mx_le: "fle (amp mx) (amp mx')"
  proof (cases "fgt (amp d) (amp mx)")
    case True
    then show ?thesis using flt_imp_fle [of "amp mx" "amp d"] by (simp add: mx'_def fgt_def)
  next
    case False
    then show ?thesis using fle_refl [OF nn_mx] by (simp add: mx'_def)
  qed
  show ?case
  proof (cases "\<exists>e \<in> set ds. fgt (amp e) (amp mx')")
    case True
    from Cons.IH [OF nn' nnds True] obtain k where k1: "k < length ds"
      and k2: "max_peak_loop mx' ds = ds ! k" and k3: "fgt (amp (ds ! k)) (amp mx')"
      and k4: "\<forall>j < k. flt (amp (ds ! j)) (amp (ds ! k))"
      and k5: "\<forall>j < length ds. fle (amp (ds ! j)) (amp (ds ! k))"
      by blast
    have k3': "flt (amp mx') (amp (ds ! k))" using k3 by (simp add: fgt_def)
    have d_lt: "flt (amp d) (amp (ds ! k))"
      by (rule fle_flt_trans [OF d_le k3'])
    have mx_lt: "flt (amp mx) (amp (ds ! k))"
      by (rule fle_flt_trans [OF mx_le k3'])
    have a: "Suc k < length (d # ds)" using k1 by simp
    have b: "max_peak_loop mx (d # ds) = (d # ds) ! Suc k" using k2 step by simp
    have c: "fgt (amp ((d # ds) ! Suc k)) (amp mx)" using mx_lt by (simp add: fgt_def)
    have d: "\<forall>j < Suc k. flt (amp ((d # ds) ! j)) (amp ((d # ds) ! Suc k))"
    proof (intro allI impI)
      fix j assume "j < Suc k"
      then show "flt (amp ((d # ds) ! j)) (amp ((d # ds) ! Suc k))"
        using d_lt k4 by (cases j) simp_all
    qed
    have e: "\<forall>j < length (d # ds). fle (amp ((d # ds) ! j)) (amp ((d # ds) ! Suc k))"
    proof (intro allI impI)
      fix j assume "j < length (d # ds)"
      then show "fle (amp ((d # ds) ! j)) (amp ((d # ds) ! Suc k))"
        using flt_imp_fle [OF d_lt] k5 by (cases j) simp_all
    qed
    from a b c d e show ?thesis by blast
  next
    case False
    then have keep: "max_peak_loop mx' ds = mx'"
      by (intro max_peak_loop_keep) blast
    have gt: "fgt (amp d) (amp mx)"
    proof (rule ccontr)
      assume n: "\<not> fgt (amp d) (amp mx)"
      then have "mx' = mx" by (simp add: mx'_def)
      then show False using False n Cons.prems(3) by simp
    qed
    then have mx'_d: "mx' = d" by (simp add: mx'_def)
    have res: "max_peak_loop mx (d # ds) = d" using keep step mx'_d by simp
    have e: "\<forall>j < length (d # ds). fle (amp ((d # ds) ! j)) (amp ((d # ds) ! 0))"
    proof (intro allI impI)
      fix j assume j: "j < length (d # ds)"
      show "fle (amp ((d # ds) ! j)) (amp ((d # ds) ! 0))"
      proof (cases j)
        case 0
        then show ?thesis using fle_refl [OF nn_d] by simp
      next
        case (Suc i)
        then have i: "i < length ds" using j by simp
        then have "\<not> fgt (amp (ds ! i)) (amp d)" using False mx'_d by simp
        then have "\<not> flt (amp d) (amp (ds ! i))" by (simp add: fgt_def)
        moreover have "amp (ds ! i) \<noteq> NaN" using nnds i by simp
        ultimately have "fle (amp (ds ! i)) (amp d)"
          using not_flt_iff_fle [OF nn_d, of "amp (ds ! i)"] by simp
        then show ?thesis using Suc by simp
      qed
    qed
    have a: "0 < length (d # ds)" by simp
    have b: "max_peak_loop mx (d # ds) = (d # ds) ! 0" using res by simp
    have c: "fgt (amp ((d # ds) ! 0)) (amp mx)" using gt by simp
    have d: "\<forall>j < (0::nat). flt (amp ((d # ds) ! j)) (amp ((d # ds) ! 0))" by simp
    from a b c d e show ?thesis by blast
  qed
qed


text \<open>
  Claim C9. \<open>get_max_peak\<close> receives the points that \<open>format_data\<close> makes from unsigned
  samples, whose amplitudes are greater than or equal to 0 (\<open>format_data_amp_nonneg\<close>).
  For every non-empty sequence of data points with such amplitudes it returns the point
  at the first index \<open>k\<close> whose amplitude is strictly greater than all earlier amplitudes
  and not exceeded by any amplitude of the sequence, so by no later one: the comparison is
  a strict \<open>>\<close> and the first occurrence wins on ties. For the amplitudes 3, 7, 2, 7 that
  is the point at index 1, not the one at index 3.
\<close>

theorem get_max_peak_first_maximum:
  assumes "data \<noteq> []" and "\<forall>d \<in> set data. fle (Fin 0) (amp d)"
  shows "\<exists>k < length data. get_max_peak data (int (length data)) = data ! k
           \<and> (\<forall>j < k. flt (amp (data ! j)) (amp (data ! k)))
           \<and> (\<forall>j < length data. fle (amp (data ! j)) (amp (data ! k)))"
proof -
  let ?mx = "\<lparr>dist = Fin (- 1), amp = Fin (- 1)\<rparr>"
  have nn: "\<forall>d \<in> set data. amp d \<noteq> NaN"
    using assms(2) fle_not_NaN by blast
  have "hd data \<in> set data" using assms(1) by simp
  then have "fle (Fin 0) (amp (hd data))" using assms(2) by blast
  moreover have "flt (Fin (- 1)) (Fin 0)" by simp
  ultimately have "flt (Fin (- 1)) (amp (hd data))" using flt_fle_trans by blast
  then have b: "\<exists>d \<in> set data. fgt (amp d) (amp ?mx)"
    using \<open>hd data \<in> set data\<close> by (auto simp: fgt_def)
  have a: "amp ?mx \<noteq> NaN" by simp
  have "\<exists>k < length data. max_peak_loop ?mx data = data ! k
           \<and> fgt (amp (data ! k)) (amp ?mx)
           \<and> (\<forall>j < k. flt (amp (data ! j)) (amp (data ! k)))
           \<and> (\<forall>j < length data. fle (amp (data ! j)) (amp (data ! k)))"
    by (rule max_peak_loop_first [OF a nn b])
  then show ?thesis by (auto simp: get_max_peak_def)
qed

theorem get_max_peak_first_maximum_witness:
  "format_data ((!) [3, 7, 2, 7]) 4 (Fin 0) (Fin 1)
     = [\<lparr>dist = Fin 0, amp = Fin 3\<rparr>, \<lparr>dist = Fin (1 / 4), amp = Fin 7\<rparr>,
        \<lparr>dist = Fin (1 / 2), amp = Fin 2\<rparr>, \<lparr>dist = Fin (3 / 4), amp = Fin 7\<rparr>]
   \<and> fle (Fin 0) (Fin 3) \<and> fle (Fin 0) (Fin 7) \<and> fle (Fin 0) (Fin 2)
   \<and> get_max_peak (format_data ((!) [3, 7, 2, 7]) 4 (Fin 0) (Fin 1)) 4
       = format_data ((!) [3, 7, 2, 7]) 4 (Fin 0) (Fin 1) ! 1
   \<and> get_max_peak (format_data ((!) [3, 7, 2, 7]) 4 (Fin 0) (Fin 1)) 4
       \<noteq> format_data ((!) [3, 7, 2, 7]) 4 (Fin 0) (Fin 1) ! 3
   \<and> (\<exists>k < 4. get_max_peak (format_data ((!) [3, 7, 2, 7]) 4 (Fin 0) (Fin 1)) 4
              = format_data ((!) [3, 7, 2, 7]) 4 (Fin 0) (Fin 1) ! k
            \<and> (\<forall>j < k. flt (amp (format_data ((!) [3, 7, 2, 7]) 4 (Fin 0) (Fin 1) ! j))
                          (amp (format_data ((!) [3, 7, 2, 7]) 4 (Fin 0) (Fin 1) ! k))))"
proof -
  let ?data = "format_data ((!) [3, 7, 2, 7]) 4 (Fin 0) (Fin 1)"
  have d: "?data = [\<lparr>dist = Fin 0, amp = Fin 3\<rparr>, \<lparr>dist = Fin (1 / 4), amp = Fin 7\<rparr>,
        \<lparr>dist = Fin (1 / 2), amp = Fin 2\<rparr>, \<lparr>dist = Fin (3 / 4), amp = Fin 7\<rparr>]"
    by (simp add: run_eval)
  have len: "length ?data = 4" by (simp add: d)
  have h1: "?data \<noteq> []" by (simp add: d)
  have h2: "\<forall>d \<in> set ?data. fle (Fin 0) (amp d)" by (rule format_data_amp_nonneg)
  have "\<exists>k < length ?data. get_max_peak ?data (int (length ?data)) = ?data ! k
           \<and> (\<forall>j < k. flt (amp (?data ! j)) (amp (?data ! k)))"
    using get_max_peak_first_maximum [OF h1 h2] by blast
  then have r: "\<exists>k < 4. get_max_peak ?data 4 = ?data ! k
           \<and> (\<forall>j < k. flt (amp (?data ! j)) (amp (?data ! k)))"
    unfolding len by simp
  have "get_max_peak ?data 4 = \<lparr>dist = Fin (1 / 4), amp = Fin 7\<rparr>"
    unfolding d by (simp add: get_max_peak_def fgt_def)
  then have e: "get_max_peak ?data 4 = ?data ! 1 \<and> get_max_peak ?data 4 \<noteq> ?data ! 3"
    by (simp add: d)
  from d r e show ?thesis by simp
qed

text \<open>
  Claim C10. For every non-empty sequence of data points whose amplitudes are all greater
  than or equal to 0, as are those of the points that \<open>format_data\<close> makes from unsigned
  samples (\<open>format_data_amp_nonneg\<close>), \<open>get_max_peak\<close> returns one of the points of the
  sequence, never the sentinel of amplitude -1 and distance -1, and the amplitude of the
  returned point is greater than or equal to every amplitude of the sequence.
\<close>

theorem get_max_peak_nonneg:
  assumes "data \<noteq> []" and "\<forall>d \<in> set data. fle (Fin 0) (amp d)"
  shows "get_max_peak data (int (length data)) \<in> set data
         \<and> get_max_peak data (int (length data)) \<noteq> \<lparr>dist = Fin (- 1), amp = Fin (- 1)\<rparr>
         \<and> (\<forall>d \<in> set data. fle (amp d) (amp (get_max_peak data (int (length data)))))"
proof -
  let ?mx = "\<lparr>dist = Fin (- 1), amp = Fin (- 1)\<rparr>"
  let ?r = "get_max_peak data (int (length data))"
  have nn: "\<forall>d \<in> set data. amp d \<noteq> NaN"
    using assms(2) fle_not_NaN by blast
  have gt: "\<forall>d \<in> set data. flt (Fin (- 1)) (amp d)"
  proof
    fix d assume "d \<in> set data"
    then have "fle (Fin 0) (amp d)" using assms(2) by blast
    moreover have "flt (Fin (- 1)) (Fin 0)" by simp
    ultimately show "flt (Fin (- 1)) (amp d)" using flt_fle_trans by blast
  qed
  have "hd data \<in> set data" using assms(1) by simp
  then have ex: "\<exists>d \<in> set data. fgt (amp d) (amp ?mx)"
    using gt by (auto simp: fgt_def)
  have "amp ?mx \<noteq> NaN" by simp
  then have "\<exists>k < length data. max_peak_loop ?mx data = data ! k
           \<and> fgt (amp (data ! k)) (amp ?mx)
           \<and> (\<forall>j < k. flt (amp (data ! j)) (amp (data ! k)))
           \<and> (\<forall>j < length data. fle (amp (data ! j)) (amp (data ! k)))"
    using nn ex by (intro max_peak_loop_first)
  then obtain k where k: "k < length data" and r: "?r = data ! k"
    and all: "\<forall>j < length data. fle (amp (data ! j)) (amp (data ! k))"
    by (auto simp: get_max_peak_def)
  have a: "?r \<in> set data" using k r by simp
  then have "flt (Fin (- 1)) (amp ?r)" using gt by blast
  then have b: "?r \<noteq> ?mx" by auto
  have c: "\<forall>d \<in> set data. fle (amp d) (amp ?r)"
    using all r by (auto simp: in_set_conv_nth)
  from a b c show ?thesis by blast
qed

theorem get_max_peak_nonneg_witness:
  "format_data ((!) [0, 5, 5, 2]) 4 (Fin 0) (Fin 1)
     = [\<lparr>dist = Fin 0, amp = Fin 0\<rparr>, \<lparr>dist = Fin (1 / 4), amp = Fin 5\<rparr>,
        \<lparr>dist = Fin (1 / 2), amp = Fin 5\<rparr>, \<lparr>dist = Fin (3 / 4), amp = Fin 2\<rparr>]
   \<and> fle (Fin 0) (Fin 0) \<and> fle (Fin 0) (Fin 5) \<and> fle (Fin 0) (Fin 2)
   \<and> get_max_peak (format_data ((!) [0, 5, 5, 2]) 4 (Fin 0) (Fin 1)) 4
       = \<lparr>dist = Fin (1 / 4), amp = Fin 5\<rparr>
   \<and> get_max_peak (format_data ((!) [0, 5, 5, 2]) 4 (Fin 0) (Fin 1)) 4
       \<in> set (format_data ((!) [0, 5, 5, 2]) 4 (Fin 0) (Fin 1))
   \<and> get_max_peak (format_data ((!) [0, 5, 5, 2]) 4 (Fin 0) (Fin 1)) 4
       \<noteq> \<lparr>dist = Fin (- 1), amp = Fin (- 1)\<rparr>"
proof -
  let ?data = "format_data ((!) [0, 5, 5, 2]) 4 (Fin 0) (Fin 1)"
  have d: "?data = [\<lparr>dist = Fin 0, amp = Fin 0\<rparr>, \<lparr>dist = Fin (1 / 4), amp = Fin 5\<rparr>,
        \<lparr>dist = Fin (1 / 2), amp = Fin 5\<rparr>, \<lparr>dist = Fin (3 / 4), amp = Fin 2\<rparr>]"
    by (simp add: run_eval)
  have len: "int (length ?data) = 4" by (simp add: d)
  have h1: "?data \<noteq> []" by (simp add: d)
  have h2: "\<forall>d \<in> set ?data. fle (Fin 0) (amp d)" by (rule format_data_amp_nonneg)
  have "get_max_peak ?data (int (length ?data)) \<in> set ?data
      \<and> get_max_peak ?data (int (length ?data)) \<noteq> \<lparr>dist = Fin (- 1), amp = Fin (- 1)\<rparr>"
    using get_max_peak_nonneg [OF h1 h2] by blast
  then have r: "get_max_peak ?data 4 \<in> set ?data
      \<and> get_max_peak ?data 4 \<noteq> \<lparr>dist = Fin (- 1), amp = Fin (- 1)\<rparr>"
    unfolding len .
  have "get_max_peak ?data 4 = \<lparr>dist = Fin (1 / 4), amp = Fin 5\<rparr>"
    unfolding d by (simp add: get_max_peak_def fgt_def)
  then show ?thesis using d r by simp
qed

section \<open>The detection loop\<close>

lemma detection_loop_stop:
  "detection_loop cfg sv ca fa k buf len r r ev = Some (Inr (r, k, ev))"
  by (subst detection_loop.simps) simp

lemma detection_loop_step:
  assumes "f \<noteq> r" and "sweep_step cfg sv ca fa k buf len = Inr (buf', len', r')"
  shows "detection_loop cfg sv ca fa k buf len f r ev =
         detection_loop cfg sv ca fa (k + 1) buf' len' r r'
           (ev @ [Sleep (time_delay cfg), Printf r'])"
  using assms by (subst detection_loop.simps) simp

lemma detection_loop_debounce:
  assumes run: "\<forall>k \<le> K. sweeps_upto cfg sv ca fa buf0 k = Inr (bufs k, lens k, cls k)"
    and stop: "cls K = cls (K - 1)"
    and go: "\<forall>k. 1 \<le> k \<and> k < K \<longrightarrow> cls k \<noteq> cls (k - 1)"
  shows "1 \<le> j \<Longrightarrow> j \<le> K \<Longrightarrow> f \<noteq> cls (j - 1) \<Longrightarrow>
         detection_loop cfg sv ca fa j (bufs (j - 1)) (lens (j - 1)) f (cls (j - 1)) ev =
         Some (Inr (cls K, Suc K, ev @ concat (map (\<lambda>k. [Sleep (time_delay cfg), Printf (cls k)]) [j..<Suc K])))"
proof (induction "K - j" arbitrary: j f ev)
  case 0
  then have jK: "j = K" by simp
  from run jK 0 have prev: "sweeps_upto cfg sv ca fa buf0 (j - 1) = Inr (bufs (j - 1), lens (j - 1), cls (j - 1))"
    by simp
  from run jK have cur: "sweeps_upto cfg sv ca fa buf0 j = Inr (bufs j, lens j, cls j)" by simp
  from 0 obtain i where i: "j = Suc i" by (cases j) auto
  from prev cur i have st: "sweep_step cfg sv ca fa j (bufs (j - 1)) (lens (j - 1)) = Inr (bufs j, lens j, cls j)"
    by simp
  have "detection_loop cfg sv ca fa j (bufs (j - 1)) (lens (j - 1)) f (cls (j - 1)) ev
      = detection_loop cfg sv ca fa (j + 1) (bufs j) (lens j) (cls (j - 1)) (cls j)
           (ev @ [Sleep (time_delay cfg), Printf (cls j)])"
    by (rule detection_loop_step [OF "0.prems"(3) st])
  also have "\<dots> = Some (Inr (cls j, j + 1, ev @ [Sleep (time_delay cfg), Printf (cls j)]))"
    using stop jK by (simp add: detection_loop_stop)
  finally show ?case using jK by simp
next
  case (Suc n)
  then have jK: "j < K" by simp
  from run jK Suc.prems have prev: "sweeps_upto cfg sv ca fa buf0 (j - 1) = Inr (bufs (j - 1), lens (j - 1), cls (j - 1))"
    by simp
  from run jK have cur: "sweeps_upto cfg sv ca fa buf0 j = Inr (bufs j, lens j, cls j)" by simp
  from Suc.prems obtain i where i: "j = Suc i" by (cases j) auto
  from prev cur i have st: "sweep_step cfg sv ca fa j (bufs (j - 1)) (lens (j - 1)) = Inr (bufs j, lens j, cls j)"
    by simp
  have ne: "cls (j - 1) \<noteq> cls j" using go jK Suc.prems(1) by fastforce
  have "detection_loop cfg sv ca fa j (bufs (j - 1)) (lens (j - 1)) f (cls (j - 1)) ev
      = detection_loop cfg sv ca fa (Suc j) (bufs (Suc j - 1)) (lens (Suc j - 1)) (cls (j - 1)) (cls (Suc j - 1))
           (ev @ [Sleep (time_delay cfg), Printf (cls j)])"
    using detection_loop_step [OF Suc.prems(3) st] by simp
  also have "\<dots> = Some (Inr (cls K, Suc K, (ev @ [Sleep (time_delay cfg), Printf (cls j)])
       @ concat (map (\<lambda>k. [Sleep (time_delay cfg), Printf (cls k)]) [Suc j..<Suc K])))"
    using Suc.hyps(2) jK ne by (intro Suc.hyps(1)) auto
  finally show ?case using jK by (simp add: upt_conv_Cons)
qed


lemma car_present_cases: "car_present p b r = 0 \<or> car_present p b r = 1"
  by (simp add: car_present_def)

lemma sweep_step_result:
  "sweep_step cfg sv ca fa k buf len = Inr (buf', len', r) \<Longrightarrow> r = 0 \<or> r = 1"
  using car_present_cases
  by (auto simp: sweep_step_def Let_def split: sum.splits prod.splits)

lemma sweeps_upto_result:
  "sweeps_upto cfg sv ca fa buf0 k = Inr (buf', len', r) \<Longrightarrow> r = 0 \<or> r = 1"
  by (cases k) (auto dest: sweep_step_result split: sum.splits prod.splits)

lemma sweep_class_Some:
  "sweep_class cfg sv ca fa buf0 k = Some r \<Longrightarrow>
   \<exists>buf len. sweeps_upto cfg sv ca fa buf0 k = Inr (buf, len, r)"
  by (auto simp: sweep_class_def split: sum.splits prod.splits)

text \<open>
  Claim C2. \<open>sweep_class \<dots> k\<close> is the classification of sweep \<open>k\<close> (1 occupied, 0 empty).
  With the sensor service created: in debounced mode (\<open>delay\<close> set), when the sweeps
  \<open>0, \<dots>, K\<close> are acquired and \<open>K \<ge> 1\<close> is the first index whose classification
  equals that of the sweep before it, \<open>get_detection\<close> returns the classification of sweep
  \<open>K\<close> after \<open>K + 1\<close> sweeps, having slept \<open>time_delay\<close> before each sweep but the first;
  for the classifications 1, 0, 0 it stops after the third sweep and returns 0. In
  single-shot mode it returns the classification of the first sweep, after one sweep and
  without sleeping.
\<close>

theorem get_detection_debounce:
  assumes created: "create_sensor_service sv = Inr ()"
  shows "(delay cfg \<and> 1 \<le> K
            \<and> (\<forall>k \<le> K. sweep_class cfg sv ca fa buf0 k = Some (cls k))
            \<and> cls K = cls (K - 1) \<and> (\<forall>k. 1 \<le> k \<and> k < K \<longrightarrow> cls k \<noteq> cls (k - 1))
          \<longrightarrow> get_detection cfg sv ca fa buf0 =
                Some (Inr (cls K, Suc K,
                  Printf (cls 0)
                  # concat (map (\<lambda>k. [Sleep (time_delay cfg), Printf (cls k)]) [1..<Suc K]))))
       \<and> (\<not> delay cfg \<and> sweep_class cfg sv ca fa buf0 0 = Some r
          \<longrightarrow> get_detection cfg sv ca fa buf0 = Some (Inr (r, 1, [Printf r])))"
proof (intro conjI impI)
  assume a: "\<not> delay cfg \<and> sweep_class cfg sv ca fa buf0 0 = Some r"
  then obtain buf len where "sweeps_upto cfg sv ca fa buf0 0 = Inr (buf, len, r)"
    using sweep_class_Some by blast
  then show "get_detection cfg sv ca fa buf0 = Some (Inr (r, 1, [Printf r]))"
    using created a by (simp add: get_detection_def)
next
  assume a: "delay cfg \<and> 1 \<le> K
            \<and> (\<forall>k \<le> K. sweep_class cfg sv ca fa buf0 k = Some (cls k))
            \<and> cls K = cls (K - 1) \<and> (\<forall>k. 1 \<le> k \<and> k < K \<longrightarrow> cls k \<noteq> cls (k - 1))"
  then have "\<forall>k. \<exists>bl. k \<le> K \<longrightarrow> sweeps_upto cfg sv ca fa buf0 k = Inr (fst bl, snd bl, cls k)"
    using sweep_class_Some by fastforce
  then obtain st where st: "\<forall>k. k \<le> K \<longrightarrow>
      sweeps_upto cfg sv ca fa buf0 k = Inr (fst (st k), snd (st k), cls k)"
    using choice [of "\<lambda>k bl. k \<le> K \<longrightarrow> sweeps_upto cfg sv ca fa buf0 k = Inr (fst bl, snd bl, cls k)"]
    by blast
  define bufs where "bufs = (\<lambda>k. fst (st k))"
  define lens where "lens = (\<lambda>k. snd (st k))"
  have run: "\<forall>k \<le> K. sweeps_upto cfg sv ca fa buf0 k = Inr (bufs k, lens k, cls k)"
    using st by (simp add: bufs_def lens_def)
  then have first: "sweeps_upto cfg sv ca fa buf0 0 = Inr (bufs 0, lens 0, cls 0)" by blast
  then have "cls 0 = 0 \<or> cls 0 = 1" by (rule sweeps_upto_result)
  then have ne: "- 2 \<noteq> cls (1 - 1)" by auto
  have stop: "cls K = cls (K - 1)" and go: "\<forall>k. 1 \<le> k \<and> k < K \<longrightarrow> cls k \<noteq> cls (k - 1)"
    and K: "1 \<le> K" and d: "delay cfg"
    using a by simp_all
  have "detection_loop cfg sv ca fa 1 (bufs (1 - 1)) (lens (1 - 1)) (- 2) (cls (1 - 1)) [Printf (cls 0)]
       = Some (Inr (cls K, Suc K, [Printf (cls 0)]
           @ concat (map (\<lambda>k. [Sleep (time_delay cfg), Printf (cls k)]) [1..<Suc K])))"
    using K ne by (intro detection_loop_debounce [OF run stop go]) simp_all
  then show "get_detection cfg sv ca fa buf0 =
                Some (Inr (cls K, Suc K,
                  Printf (cls 0)
                  # concat (map (\<lambda>k. [Sleep (time_delay cfg), Printf (cls k)]) [1..<Suc K])))"
    using created first d by (simp add: get_detection_def)
qed

theorem get_detection_debounce_witness:
  "get_detection
     \<lparr>calibrate = False, read_calibration_file = True,
      radar_config = \<lparr>start_range = Fin 0, length_range = Fin 1, nbr_of_sweeps = 1,
                       frequency = 100, sensor = 1\<rparr>,
      loglevel = 0, calibration_file_name = ''parking.cal'', time_delay = 10, delay = True\<rparr>
     \<lparr>sweep_configuration_available = True, service_created = True,
      envelope_get_next = (\<lambda>k. Some (if k = 0 then [10] else if k = 1 then [3] else [5]))\<rparr>
     (Fin 2) (Fin 1) (\<lambda>i. 0)
   = Some (Inr (0, 3, [Printf 1, Sleep 10, Printf 0, Sleep 10, Printf 0]))
   \<and> get_detection
     \<lparr>calibrate = False, read_calibration_file = True,
      radar_config = \<lparr>start_range = Fin 0, length_range = Fin 1, nbr_of_sweeps = 1,
                       frequency = 100, sensor = 1\<rparr>,
      loglevel = 0, calibration_file_name = ''parking.cal'', time_delay = 10, delay = False\<rparr>
     \<lparr>sweep_configuration_available = True, service_created = True,
      envelope_get_next = (\<lambda>k. Some [10])\<rparr>
     (Fin 2) (Fin 1) (\<lambda>i. 0)
   = Some (Inr (1, 1, [Printf 1]))"
proof -
  let ?rc = "\<lparr>start_range = Fin 0, length_range = Fin 1, nbr_of_sweeps = 1,
                       frequency = 100, sensor = 1\<rparr>"
  let ?cfg = "\<lambda>d. \<lparr>calibrate = False, read_calibration_file = True, radar_config = ?rc,
      loglevel = 0, calibration_file_name = ''parking.cal'', time_delay = 10, delay = d\<rparr>"
  let ?sv = "\<lparr>sweep_configuration_available = True, service_created = True,
      envelope_get_next = (\<lambda>k. Some (if k = 0 then [10] else if k = 1 then [3] else [5]))\<rparr>"
  let ?sv1 = "\<lparr>sweep_configuration_available = True, service_created = True,
      envelope_get_next = (\<lambda>k. Some [10])\<rparr>"
  let ?cls = "\<lambda>k::nat. if k = 0 then 1 else (0::int)"
  have created: "create_sensor_service ?sv = Inr ()"
    by (simp add: create_sensor_service_def)
  have created1: "create_sensor_service ?sv1 = Inr ()"
    by (simp add: create_sensor_service_def)
  let ?B0 = "\<lambda>i. if i < length [10::16 word] then [10] ! i else (0::16 word)"
  let ?B1 = "\<lambda>i. if i < length [3::16 word] then [3] ! i else ?B0 i"
  let ?B2 = "\<lambda>i. if i < length [5::16 word] then [5] ! i else ?B1 i"
  have u0: "sweeps_upto (?cfg True) ?sv (Fin 2) (Fin 1) (\<lambda>i. 0) 0 = Inr (?B0, 1, 1)"
    by (simp add: MAX_DATA_SIZE_def sweep_step_unfold run_eval)
  have st1: "sweep_step (?cfg True) ?sv (Fin 2) (Fin 1) (Suc 0) ?B0 1 = Inr (?B1, 1, 0)"
    by (simp add: sweep_step_unfold run_eval cong: if_cong)
  have st2: "sweep_step (?cfg True) ?sv (Fin 2) (Fin 1) (Suc (Suc 0)) ?B1 1 = Inr (?B2, 1, 0)"
    by (simp add: sweep_step_unfold run_eval cong: if_cong)
  have u1: "sweeps_upto (?cfg True) ?sv (Fin 2) (Fin 1) (\<lambda>i. 0) (Suc 0) = Inr (?B1, 1, 0)"
    by (subst sweeps_upto.simps(2)) (simp only: u0 sum.case prod.case st1)
  have u2: "sweeps_upto (?cfg True) ?sv (Fin 2) (Fin 1) (\<lambda>i. 0) (Suc (Suc 0)) = Inr (?B2, 1, 0)"
    by (subst sweeps_upto.simps(2)) (simp only: u1 sum.case prod.case st2)
  have s0: "sweep_class (?cfg True) ?sv (Fin 2) (Fin 1) (\<lambda>i. 0) 0 = Some 1"
    by (simp only: sweep_class_def u0 sum.case prod.case)
  have s1: "sweep_class (?cfg True) ?sv (Fin 2) (Fin 1) (\<lambda>i. 0) (Suc 0) = Some 0"
    by (simp only: sweep_class_def u1 sum.case prod.case)
  have s2: "sweep_class (?cfg True) ?sv (Fin 2) (Fin 1) (\<lambda>i. 0) (Suc (Suc 0)) = Some 0"
    by (simp only: sweep_class_def u2 sum.case prod.case)
  have t0: "sweep_class (?cfg False) ?sv1 (Fin 2) (Fin 1) (\<lambda>i. 0) 0 = Some 1"
    by (simp add: sweep_class_def MAX_DATA_SIZE_def sweep_step_unfold run_eval)
  have all: "\<forall>k \<le> 2. sweep_class (?cfg True) ?sv (Fin 2) (Fin 1) (\<lambda>i. 0) k = Some (?cls k)"
  proof (intro allI impI)
    fix k :: nat assume "k \<le> 2"
    then have "k = 0 \<or> k = Suc 0 \<or> k = Suc (Suc 0)" by arith
    then show "sweep_class (?cfg True) ?sv (Fin 2) (Fin 1) (\<lambda>i. 0) k = Some (?cls k)"
      using s0 s1 s2 by auto
  qed
  have go: "\<forall>k. 1 \<le> k \<and> k < 2 \<longrightarrow> ?cls k \<noteq> ?cls (k - 1)"
    by auto
  have "get_detection (?cfg True) ?sv (Fin 2) (Fin 1) (\<lambda>i. 0)
      = Some (Inr (?cls 2, Suc 2, Printf (?cls 0)
           # concat (map (\<lambda>k. [Sleep (time_delay (?cfg True)), Printf (?cls k)]) [1..<Suc 2])))"
    using get_detection_debounce [OF created, of "?cfg True" 2 "Fin 2" "Fin 1" "\<lambda>i. 0" ?cls] all go
    by simp
  then have a: "get_detection (?cfg True) ?sv (Fin 2) (Fin 1) (\<lambda>i. 0)
      = Some (Inr (0, 3, [Printf 1, Sleep 10, Printf 0, Sleep 10, Printf 0]))"
    by (simp add: upt_conv_Cons)
  have b: "get_detection (?cfg False) ?sv1 (Fin 2) (Fin 1) (\<lambda>i. 0) = Some (Inr (1, 1, [Printf 1]))"
    using get_detection_debounce [OF created1, of "?cfg False" _ "Fin 2" "Fin 1" "\<lambda>i. 0" _ 1] t0
    by simp
  from a b show ?thesis by simp
qed


section \<open>The calibration file\<close>

lemma decimal_small: "n < 10 \<Longrightarrow> decimal n = [digit_char n]"
  by (subst decimal.simps) simp

lemma decimal_large: "10 \<le> n \<Longrightarrow> decimal n = decimal (n div 10) @ [digit_char (n mod 10)]"
  by (subst decimal.simps) simp

lemma scan_samples_step:
  "i < unat n \<Longrightarrow>
   scan_samples n i res threshold_data stores fin =
     scan_samples n (i + 1) (res + word_of_int (fst (fscanf_hu fin)))
       (case fst (snd (fscanf_hu fin)) of None \<Rightarrow> threshold_data
        | Some x \<Rightarrow> threshold_data(i := x))
       (case fst (snd (fscanf_hu fin)) of None \<Rightarrow> stores | Some x \<Rightarrow> stores @ [i])
       (snd (snd (fscanf_hu fin)))"
  by (subst scan_samples.simps) (simp split: prod.splits)

lemma scan_samples_done:
  "\<not> i < unat n \<Longrightarrow> scan_samples n i res threshold_data stores fin = (res, threshold_data, stores, fin)"
  by (subst scan_samples.simps) simp

lemmas text_eval =
  EOF_def newline_def isspace_def isdigit_def digit_val_def digits_val_def skip_space_def
  scan_sign_def scan_integer_def isxdigit_def xdigit_val_def xdigits_val_def isnchar_def
  scan_fraction_def scan_exponent_def scan_number_def scan_infinity_def scan_nan_def
  hexadecimal_prefix_def scan_float_def fscanf_keyword_f_def
  fscanf_keyword_u_def fscanf_hu_def digit_char_def decimal_small decimal_large
  fixed_point_def scan_samples_step scan_samples_done

lemma read_and_calculate_threshold_Inr:
  assumes "scan_calibration file threshold_data = Inr (start, length', n, threshold_data', stores)"
    and "app_config2 = adjust_length_range length' (adjust_start_range start app_config)"
    and "n' = min_u16 (ucast n) (word_of_nat MAX_DATA_SIZE)"
    and "th_data = format_data (memset_zero threshold_data' (unat n')) (uint n')
                     (start_range (radar_config app_config2))
                     (fadd (start_range (radar_config app_config2))
                        (length_range (radar_config app_config2)))"
  shows "read_and_calculate_threshold app_config file threshold_data =
     Inr \<lparr>config = app_config2,
          avg_calib_amp = get_average_amplitude th_data (uint n'),
          peak_amp = get_max_peak th_data (uint n'),
          avg_amp_factor = fdiv (amp (get_max_peak th_data (uint n')))
                             (get_average_amplitude th_data (uint n')),
          printed =
            (if fne start (start_range (radar_config app_config))
             then [''Setting start_range to '' @ fprintf_f 2 start
                   @ '' due to calibration file'' @ [newline]]
             else [])
            @ (if flt length' (length_range (radar_config (adjust_start_range start app_config)))
               then [''Setting length_range to '' @ fprintf_f 2 length'
                     @ '' due to calibration file'' @ [newline]]
               else []),
          stored = stores\<rparr>"
  using assms by (simp add: read_and_calculate_threshold_def Let_def)


lemmas calib_eval =
  memset_zero_def get_average_amplitude_def adjust_start_range_def adjust_length_range_def
  fne_def run_eval

text \<open>
  Claim C1 says that the threshold model is derived from the samples of the record: the
  baseline is their mean and the peak is their maximum point. The code clears the first
  \<open>n\<close> bytes of the buffer, half of the \<open>n\<close> samples read, before it maps them. For the file
  with start 0.25, length 0.5 and the two samples 20 and 10 it returns the baseline 5, the
  peak point of amplitude 10 at distance 0.5 and the ratio 2, whereas the mean of the
  samples is 15 and their maximum point has amplitude 20 at distance 0.25.
\<close>

theorem read_clears_samples:
  "read_and_calculate_threshold
     (app_config\<lparr>radar_config :=
        (radar_config app_config)\<lparr>start_range := Fin (1/4), length_range := Fin (1/2)\<rparr>\<rparr>)
     (Some (''start 0.25'' @ [newline] @ ''length 0.5'' @ [newline] @ ''n 2'' @ [newline]
            @ ''20 10 ''))
     threshold_data
   = Inr \<lparr>config = app_config\<lparr>radar_config :=
             (radar_config app_config)\<lparr>start_range := Fin (1/4), length_range := Fin (1/2)\<rparr>\<rparr>,
          avg_calib_amp = Fin 5,
          peak_amp = \<lparr>dist = Fin (1/2), amp = Fin 10\<rparr>,
          avg_amp_factor = Fin 2,
          printed = [],
          stored = [0, 1]\<rparr>
   \<and> get_average_amplitude (format_data ((!) [20, 10]) 2 (Fin (1/4)) (Fin (3/4))) 2 = Fin 15
   \<and> get_max_peak (format_data ((!) [20, 10]) 2 (Fin (1/4)) (Fin (3/4))) 2
       = \<lparr>dist = Fin (1/4), amp = Fin 20\<rparr>"
proof -
  let ?cfg = "app_config\<lparr>radar_config :=
        (radar_config app_config)\<lparr>start_range := Fin (1/4), length_range := Fin (1/2)\<rparr>\<rparr>"
  let ?file = "Some (''start 0.25'' @ [newline] @ ''length 0.5'' @ [newline] @ ''n 2'' @ [newline]
            @ ''20 10 '')"
  have sc: "scan_calibration ?file threshold_data
          = Inr (Fin (1/4), Fin (1/2), 2, threshold_data(0 := 20, Suc 0 := 10), [0, Suc 0])"
    apply (simp add: scan_calibration_def text_eval)
    apply (simp add: fl32_eval)
    done
  have cfg2: "?cfg = adjust_length_range (Fin (1/2)) (adjust_start_range (Fin (1/4)) ?cfg)"
    by (simp add: adjust_length_range_def adjust_start_range_def fne_def)
  have n': "(2::16 word) = min_u16 (ucast (2::32 word)) (word_of_nat MAX_DATA_SIZE)"
    by (simp add: min_u16_def MAX_DATA_SIZE_def)
  have th: "[\<lparr>dist = Fin (1/4), amp = Fin 0\<rparr>, \<lparr>dist = Fin (1/2), amp = Fin 10\<rparr>]
        = format_data (memset_zero (threshold_data(0 := 20, Suc 0 := 10)) (unat (2::16 word)))
            (uint (2::16 word)) (start_range (radar_config ?cfg))
            (fadd (start_range (radar_config ?cfg)) (length_range (radar_config ?cfg)))"
    by (simp add: calib_eval)
  have a: "read_and_calculate_threshold ?cfg ?file threshold_data
     = Inr \<lparr>config = ?cfg, avg_calib_amp = Fin 5,
          peak_amp = \<lparr>dist = Fin (1/2), amp = Fin 10\<rparr>, avg_amp_factor = Fin 2,
          printed = [], stored = [0, 1]\<rparr>"
    by (subst read_and_calculate_threshold_Inr [OF sc cfg2 n' th]) (simp add: calib_eval)
  have b: "get_average_amplitude (format_data ((!) [20, 10]) 2 (Fin (1/4)) (Fin (3/4))) 2 = Fin 15"
    by (simp add: calib_eval)
  have c: "get_max_peak (format_data ((!) [20, 10]) 2 (Fin (1/4)) (Fin (3/4))) 2
       = \<lparr>dist = Fin (1/4), amp = Fin 20\<rparr>"
    by (simp add: calib_eval)
  from a b c show ?thesis by blast
qed

text \<open>
  Claim C7. After a successful read of the calibration file, with \<open>start\<close> and \<open>length\<close> the
  values scanned from the file: the configured start range is the file's start when the
  two differ and is unchanged otherwise; the configured length range is the file's length
  when that is strictly less than the configured one and is unchanged otherwise (also
  when the file's length is greater or equal); no other field of the configuration is
  modified.
\<close>

theorem read_adjusts_configuration:
  assumes "read_and_calculate_threshold app_config file threshold_data = Inr r"
  shows "\<exists>start length' n threshold_data' stores.
           scan_calibration file threshold_data = Inr (start, length', n, threshold_data', stores)
           \<and> start_range (radar_config (config r)) =
               (if fne start (start_range (radar_config app_config)) then start
                else start_range (radar_config app_config))
           \<and> length_range (radar_config (config r)) =
               (if flt length' (length_range (radar_config app_config)) then length'
                else length_range (radar_config app_config))
           \<and> config r = app_config\<lparr>radar_config := (radar_config app_config)
                 \<lparr>start_range := start_range (radar_config (config r)),
                  length_range := length_range (radar_config (config r))\<rparr>\<rparr>"
proof (cases "scan_calibration file threshold_data")
  case (Inl e)
  then show ?thesis using assms by (simp add: read_and_calculate_threshold_def)
next
  case (Inr t)
  obtain start length' n threshold_data' stores
    where t: "t = (start, length', n, threshold_data', stores)"
    by (cases t) auto
  have sc: "scan_calibration file threshold_data = Inr (start, length', n, threshold_data', stores)"
    using Inr t by simp
  have "config r = adjust_length_range length' (adjust_start_range start app_config)"
    using assms read_and_calculate_threshold_Inr [OF sc refl refl refl, of app_config]
    by auto
  then show ?thesis using sc
    by (auto simp: adjust_length_range_def adjust_start_range_def)
qed


theorem read_adjusts_configuration_witness:
  "(\<exists>r. read_and_calculate_threshold (init_configuration 1)
          (Some (''start 0.25'' @ [newline] @ ''length 0.25'' @ [newline] @ ''n 2'' @ [newline]
                 @ ''20 10 ''))
          (\<lambda>i. 0) = Inr r
        \<and> config r = (init_configuration 1)\<lparr>radar_config := (radar_config (init_configuration 1))
                         \<lparr>start_range := Fin (1/4), length_range := Fin (1/4)\<rparr>\<rparr>)
   \<and> (\<exists>r. read_and_calculate_threshold (init_configuration 1)
          (Some (''start 0.25'' @ [newline] @ ''length 0.5'' @ [newline] @ ''n 2'' @ [newline]
                 @ ''20 10 ''))
          (\<lambda>i. 0) = Inr r
        \<and> config r = (init_configuration 1)\<lparr>radar_config := (radar_config (init_configuration 1))
                         \<lparr>start_range := Fin (1/4)\<rparr>\<rparr>)"
proof -
  let ?cfg = "init_configuration 1"
  let ?f1 = "Some (''start 0.25'' @ [newline] @ ''length 0.25'' @ [newline] @ ''n 2'' @ [newline]
                 @ ''20 10 '')"
  let ?f2 = "Some (''start 0.25'' @ [newline] @ ''length 0.5'' @ [newline] @ ''n 2'' @ [newline]
                 @ ''20 10 '')"
  let ?buf = "(\<lambda>i. 0 :: 16 word)(0 := 20, Suc 0 := 10)"
  have sc1: "scan_calibration ?f1 (\<lambda>i. 0) = Inr (Fin (1/4), Fin (1/4), 2, ?buf, [0, Suc 0])"
    apply (simp add: scan_calibration_def text_eval)
    apply (simp add: fl32_eval)
    done
  have sc2: "scan_calibration ?f2 (\<lambda>i. 0) = Inr (Fin (1/4), Fin (1/2), 2, ?buf, [0, Suc 0])"
    apply (simp add: scan_calibration_def text_eval)
    apply (simp add: fl32_eval)
    done
  have c: "start_range (radar_config ?cfg) = Fin (16106127 / 134217728)
         \<and> length_range (radar_config ?cfg) = Fin (16106127 / 33554432)"
    by (simp add: init_configuration_def fl32_eval)
  obtain r1 where r1: "read_and_calculate_threshold ?cfg ?f1 (\<lambda>i. 0) = Inr r1"
    using read_and_calculate_threshold_Inr [OF sc1 refl refl refl] by blast
  obtain r2 where r2: "read_and_calculate_threshold ?cfg ?f2 (\<lambda>i. 0) = Inr r2"
    using read_and_calculate_threshold_Inr [OF sc2 refl refl refl] by blast
  have "config r1 = ?cfg\<lparr>radar_config := (radar_config ?cfg)
                         \<lparr>start_range := Fin (1/4), length_range := Fin (1/4)\<rparr>\<rparr>"
    using read_adjusts_configuration [OF r1] sc1 c by (auto simp: fne_def)
  moreover have "config r2 = ?cfg\<lparr>radar_config := (radar_config ?cfg)\<lparr>start_range := Fin (1/4)\<rparr>\<rparr>"
    using read_adjusts_configuration [OF r2] sc2 c by (auto simp: fne_def)
  ultimately show ?thesis using r1 r2 by blast
qed

lemmas header_eval =
  EOF_def newline_def isspace_def isdigit_def digit_val_def digits_val_def skip_space_def
  scan_sign_def scan_integer_def isxdigit_def xdigit_val_def xdigits_val_def isnchar_def
  scan_fraction_def scan_exponent_def scan_number_def scan_infinity_def scan_nan_def
  hexadecimal_prefix_def scan_float_def fscanf_keyword_f_def
  fscanf_keyword_u_def fscanf_hu_def

lemma fscanf_hu_eof: "fscanf_hu [] = (- 1, None, [])"
  by (simp add: header_eval)

lemma scan_samples_eof:
  "i + k = unat n \<Longrightarrow>
   scan_samples n i res threshold_data stores [] = (res - of_nat k, threshold_data, stores, [])"
proof (induction k arbitrary: i res)
  case 0
  then show ?case by (simp add: scan_samples_done)
next
  case (Suc k)
  then have "i < unat n" and "(i + 1) + k = unat n" by simp_all
  then show ?case
    using Suc.IH [of "i + 1" "res - 1"]
    by (simp add: scan_samples_step fscanf_hu_eof)
qed

lemma fscanf_hu_seven:
  "ws = [] \<or> ws = '' '' \<Longrightarrow>
   fscanf_hu (ws @ ''7 '' @ rest) = (1, Some 7, '' '' @ rest)"
  by (auto simp: header_eval)

lemma scan_samples_sevens:
  "ws = [] \<or> ws = '' '' \<Longrightarrow> i + k = unat n \<Longrightarrow>
   \<exists>threshold_data' fin'.
     scan_samples n i res threshold_data stores (ws @ concat (replicate k ''7 ''))
       = (res + of_nat k, threshold_data', stores @ [i..<i + k], fin')"
proof (induction k arbitrary: i res threshold_data stores ws)
  case 0
  then show ?case by (simp add: scan_samples_done)
next
  case (Suc k)
  have lt: "i < unat n" and rest: "(i + 1) + k = unat n" using Suc.prems(2) by simp_all
  have tok: "fscanf_hu (ws @ concat (replicate (Suc k) ''7 ''))
           = (1, Some 7, '' '' @ concat (replicate k ''7 ''))"
    using fscanf_hu_seven [OF Suc.prems(1), of "concat (replicate k ''7 '')"] by simp
  have step: "scan_samples n i res threshold_data stores (ws @ concat (replicate (Suc k) ''7 ''))
      = scan_samples n (i + 1) (res + 1) (threshold_data(i := 7)) (stores @ [i])
          ('' '' @ concat (replicate k ''7 ''))"
    apply (subst scan_samples_step [OF lt])
    apply (simp only: tok)
    apply simp
    done
  have l: "(stores @ [i]) @ [i + 1..<i + 1 + k] = stores @ [i..<i + Suc k]"
    by (simp add: upt_conv_Cons del: upt_Suc)
  have w: "res + 1 + of_nat k = res + of_nat (Suc k)"
    by simp
  obtain td' fin' where
    "scan_samples n (i + 1) (res + 1) (threshold_data(i := 7)) (stores @ [i])
        ('' '' @ concat (replicate k ''7 ''))
       = (res + 1 + of_nat k, td', (stores @ [i]) @ [i + 1..<i + 1 + k], fin')"
    using Suc.IH [OF _ rest, of "'' ''" "res + 1" "threshold_data(i := 7)" "stores @ [i]"] by blast
  then have "scan_samples n i res threshold_data stores (ws @ concat (replicate (Suc k) ''7 ''))
       = (res + of_nat (Suc k), td', stores @ [i..<i + Suc k], fin')"
    unfolding step l w .
  then show ?case by blast
qed


lemma skip_space_sevens:
  "dropWhile isspace (concat (replicate k ''7 '')) = concat (replicate k ''7 '')"
  by (cases k) (simp_all add: isspace_def)

lemma scan_header_3001:
  "scan_calibration
     (Some (''start 0.25'' @ [newline] @ ''length 0.5'' @ [newline] @ ''n 3001'' @ [newline]
            @ tokens))
     threshold_data
   = (case scan_samples 3001 0 0 threshold_data [] (dropWhile isspace tokens) of
        (res, threshold_data', stores, fin4) \<Rightarrow>
          if unat res \<noteq> 3001 then Inl format_error
          else Inr (Fin (1/4), Fin (1/2), 3001, threshold_data', stores))"
proof -
  have f: "fl32 (1 / 4) = Fin (1 / 4) \<and> fl32 (1 / 2) = Fin (1 / 2)"
    by (simp add: fl32_eval)
  show ?thesis
    by (simp add: scan_calibration_def header_eval f)
qed

lemma scan_header_32768:
  "scan_calibration
     (Some (''start 0.25'' @ [newline] @ ''length 0.5'' @ [newline] @ ''n 32768'' @ [newline]))
     threshold_data
   = (case scan_samples 32768 0 0 threshold_data [] [] of
        (res, threshold_data', stores, fin4) \<Rightarrow>
          if unat res \<noteq> 32768 then Inl format_error
          else Inr (Fin (1/4), Fin (1/2), 32768, threshold_data', stores))"
proof -
  have f: "fl32 (1 / 4) = Fin (1 / 4) \<and> fl32 (1 / 2) = Fin (1 / 2)"
    by (simp add: fl32_eval)
  show ?thesis
    by (simp add: scan_calibration_def header_eval f)
qed

text \<open>
  Claim C4 says that no sample is stored at an index at or beyond \<open>MAX_DATA_SIZE\<close>, the
  size of \<open>threshold_data\<close>. The code clamps \<open>n\<close> only after the loop that reads the samples:
  for the file whose header says \<open>n 3001\<close> and that holds 3001 samples, the read succeeds
  and has stored a sample at each index from 0 to 3000, the last one beyond the buffer.
\<close>

theorem read_stores_beyond_buffer:
  "\<exists>r. read_and_calculate_threshold app_config
          (Some (''start 0.25'' @ [newline] @ ''length 0.5'' @ [newline] @ ''n 3001'' @ [newline]
                 @ concat (replicate (Suc MAX_DATA_SIZE) ''7 '')))
          threshold_data = Inr r
       \<and> stored r = [0..<Suc MAX_DATA_SIZE] \<and> MAX_DATA_SIZE \<in> set (stored r)"
proof -
  let ?file = "Some (''start 0.25'' @ [newline] @ ''length 0.5'' @ [newline] @ ''n 3001'' @ [newline]
                 @ concat (replicate (Suc MAX_DATA_SIZE) ''7 ''))"
  have n: "0 + Suc MAX_DATA_SIZE = unat (3001 :: 32 word)"
    by (simp add: MAX_DATA_SIZE_def)
  have res: "(0 :: 16 word) + of_nat (Suc MAX_DATA_SIZE) = 3001"
    by (simp add: MAX_DATA_SIZE_def)
  obtain td' fin' where
    "scan_samples 3001 0 0 threshold_data [] ([] @ concat (replicate (Suc MAX_DATA_SIZE) ''7 ''))
       = (0 + of_nat (Suc MAX_DATA_SIZE), td', [] @ [0..<0 + Suc MAX_DATA_SIZE], fin')"
    using scan_samples_sevens [OF _ n, of "[]" 0 threshold_data "[]"] by blast
  then have ss: "scan_samples 3001 0 0 threshold_data []
        (concat (replicate (Suc MAX_DATA_SIZE) ''7 ''))
       = (3001, td', [0..<Suc MAX_DATA_SIZE], fin')"
    unfolding res by (simp del: replicate.simps upt_Suc)
  have sc: "scan_calibration ?file threshold_data
          = Inr (Fin (1/4), Fin (1/2), 3001, td', [0..<Suc MAX_DATA_SIZE])"
    by (simp only: scan_header_3001 skip_space_sevens ss) simp
  obtain r where r: "read_and_calculate_threshold app_config ?file threshold_data = Inr r"
    and st: "stored r = [0..<Suc MAX_DATA_SIZE]"
    using read_and_calculate_threshold_Inr [OF sc refl refl refl, of app_config] by simp
  have "MAX_DATA_SIZE \<in> set (stored r)"
    by (simp add: st)
  then show ?thesis using r st by blast
qed

text \<open>
  Claim C5 says that the read fails whenever the number of fields scanned differs from the
  number expected. The code adds the values returned by \<open>fscanf\<close>, among them \<open>EOF = -1\<close>,
  in a \<open>uint16_t\<close>: for the file whose header says \<open>n 32768\<close> and that holds no sample, the
  sum wraps around to 32768 and the read succeeds with nothing stored. The file with
  \<open>n 5\<close> and three samples does fail with the format error.
\<close>

theorem read_accepts_file_without_samples:
  "(\<exists>r. read_and_calculate_threshold app_config
          (Some (''start 0.25'' @ [newline] @ ''length 0.5'' @ [newline] @ ''n 32768'' @ [newline]))
          threshold_data = Inr r
        \<and> stored r = [])
   \<and> read_and_calculate_threshold app_config
          (Some (''start 0.25'' @ [newline] @ ''length 0.5'' @ [newline] @ ''n 5'' @ [newline]
                 @ ''10 20 30''))
          threshold_data = Inl format_error"
proof -
  let ?file = "Some (''start 0.25'' @ [newline] @ ''length 0.5'' @ [newline] @ ''n 32768'' @ [newline])"
  have "0 + 32768 = unat (32768 :: 32 word)" by simp
  then have "scan_samples 32768 0 0 threshold_data [] []
       = (0 - of_nat 32768, threshold_data, [], [])"
    by (rule scan_samples_eof)
  then have ss: "scan_samples 32768 0 0 threshold_data [] [] = (32768, threshold_data, [], [])"
    by simp
  have sc: "scan_calibration ?file threshold_data
          = Inr (Fin (1/4), Fin (1/2), 32768, threshold_data, [])"
    by (simp only: scan_header_32768 ss) simp
  obtain r where r: "read_and_calculate_threshold app_config ?file threshold_data = Inr r"
    and st: "stored r = []"
    using read_and_calculate_threshold_Inr [OF sc refl refl refl, of app_config] by simp
  have "scan_calibration
          (Some (''start 0.25'' @ [newline] @ ''length 0.5'' @ [newline] @ ''n 5'' @ [newline]
                 @ ''10 20 30''))
          threshold_data = Inl format_error"
    by (simp add: scan_calibration_def text_eval)
  then have "read_and_calculate_threshold app_config
          (Some (''start 0.25'' @ [newline] @ ''length 0.5'' @ [newline] @ ''n 5'' @ [newline]
                 @ ''10 20 30''))
          threshold_data = Inl format_error"
    by (simp add: read_and_calculate_threshold_def)
  then show ?thesis using r st by blast
qed


section \<open>Rounding to \<open>float\<close> is monotone\<close>

lemma rne_cases: "rne x = \<lfloor>x\<rfloor> \<or> rne x = \<lfloor>x\<rfloor> + 1"
  by (simp add: rne_unfold)

lemma rne_of_int [simp]: "rne (of_int k) = k"
  by (simp add: rne_unfold)

lemma rne_eq:
  assumes "x = of_int f + d" and "0 \<le> d" and "d < 1"
  shows "rne x = (if d < 1/2 then f else if 1/2 < d then f + 1
                  else if even f then f else f + 1)"
proof -
  have "\<lfloor>x\<rfloor> = f" using assms by (intro floor_unique) simp_all
  then have "x - of_int \<lfloor>x\<rfloor> = d" using assms(1) by simp
  then show ?thesis using \<open>\<lfloor>x\<rfloor> = f\<close> by (simp only: rne_unfold)
qed

lemma rne_step_mono:
  fixes d e :: real and f :: int
  assumes "d \<le> e"
  shows "(if d < 1/2 then f else if 1/2 < d then f + 1 else if even f then f else f + 1)
       \<le> (if e < 1/2 then f else if 1/2 < e then f + 1 else if even f then f else f + 1)"
  using assms by (cases "d < 1/2"; cases "e < 1/2"; cases "1/2 < d"; cases "1/2 < e") simp_all

lemma rne_mono: "x \<le> y \<Longrightarrow> rne x \<le> rne y"
proof -
  assume xy: "x \<le> y"
  then have fl: "\<lfloor>x\<rfloor> \<le> \<lfloor>y\<rfloor>" by (rule floor_mono)
  show ?thesis
  proof (cases "\<lfloor>x\<rfloor> = \<lfloor>y\<rfloor>")
    case True
    have "x - of_int \<lfloor>x\<rfloor> \<le> y - of_int \<lfloor>x\<rfloor>" using xy by simp
    then show ?thesis
      unfolding rne_unfold [of x] rne_unfold [of y] True [symmetric]
      by (rule rne_step_mono)
  next
    case False
    then have "\<lfloor>x\<rfloor> + 1 \<le> \<lfloor>y\<rfloor>" using fl by simp
    moreover have "rne x \<le> \<lfloor>x\<rfloor> + 1" using rne_cases [of x] by linarith
    moreover have "\<lfloor>y\<rfloor> \<le> rne y" using rne_cases [of y] by linarith
    ultimately show ?thesis by simp
  qed
qed

lemma rne_minus: "rne (- x) = - rne x"
proof (cases "x = of_int \<lfloor>x\<rfloor>")
  case True
  then have "- x = of_int (- \<lfloor>x\<rfloor>)" by simp
  then have "rne (- x) = - \<lfloor>x\<rfloor>" by (simp only: rne_of_int)
  moreover have "rne x = \<lfloor>x\<rfloor>" using True rne_of_int [of "\<lfloor>x\<rfloor>"] by simp
  ultimately show ?thesis by simp
next
  case False
  define f where "f = \<lfloor>x\<rfloor>"
  define d where "d = x - of_int f"
  have d: "0 < d" "d < 1" using False by (simp_all add: d_def f_def) linarith+
  have x: "x = of_int f + d" by (simp add: d_def)
  have mx: "- x = of_int (- f - 1) + (1 - d)" by (simp add: d_def)
  have a: "rne x = (if d < 1/2 then f else if 1/2 < d then f + 1
                  else if even f then f else f + 1)"
    using d by (intro rne_eq [OF x]) simp_all
  have b: "rne (- x) = (if 1 - d < 1/2 then - f - 1 else if 1/2 < 1 - d then - f - 1 + 1
                  else if even (- f - 1) then - f - 1 else - f - 1 + 1)"
    using d by (intro rne_eq [OF mx]) simp_all
  show ?thesis unfolding a b
    by (cases "d < 1/2"; cases "1/2 < d") simp_all
qed

lemma bitlen_ge_1: "0 < m \<Longrightarrow> 1 \<le> bitlen m"
  using bitlen_eq_zero_iff [of m] bitlen_nonneg [of m] by linarith

lemma ilog2_bounds:
  assumes "0 < x"
  shows "2 powi ilog2 x \<le> x" and "x < 2 powi (ilog2 x + 1)"
proof -
  have "2 powi ilog2 x \<le> x \<and> x < 2 powi (ilog2 x + 1)"
  proof (cases "1 \<le> x")
    case True
    define m where "m = \<lfloor>x\<rfloor>"
    have m: "0 < m" using True by (simp add: m_def)
    define k where "k = nat (bitlen m - 1)"
    have bl: "bitlen m = int k + 1" using bitlen_ge_1 [OF m] by (simp add: k_def)
    have e: "ilog2 x = int k" using True by (simp add: ilog2_def m_def [symmetric] bl)
    have b: "2 ^ k \<le> m" "m < 2 ^ Suc k"
      using bitlen_bounds [OF m] by (simp_all add: bl k_def [symmetric] nat_add_distrib)
    have "(2::real) ^ k \<le> of_int m" using b(1) by (metis of_int_le_iff of_int_numeral of_int_power)
    also have "\<dots> \<le> x" by (simp add: m_def)
    finally have lo: "2 powi ilog2 x \<le> x" by (simp add: e)
    have "m + 1 \<le> 2 ^ Suc k" using b(2) by simp
    then have "of_int (m + 1) \<le> (2::real) ^ Suc k"
      by (metis of_int_le_iff of_int_numeral of_int_power)
    moreover have "x < of_int (m + 1)" by (simp add: m_def)
    ultimately have "x < 2 ^ Suc k" by linarith
    then have hi: "x < 2 powi (ilog2 x + 1)"
      by (simp add: e power_int_add)
    from lo hi show ?thesis by blast
  next
    case False
    define c where "c = \<lceil>1 / x\<rceil>"
    have y: "1 < 1 / x" using False assms by simp
    then have c2: "2 \<le> c" by (simp add: c_def)
    then have m: "0 < c - 1" by simp
    define k where "k = nat (bitlen (c - 1) - 1)"
    have bl: "bitlen (c - 1) = int k + 1" using bitlen_ge_1 [OF m] by (simp add: k_def)
    have e: "ilog2 x = - (int k + 1)" using False by (simp add: ilog2_def c_def [symmetric] bl)
    have b: "2 ^ k \<le> c - 1" "c - 1 < 2 ^ Suc k"
      using bitlen_bounds [OF m] by (simp_all add: bl k_def [symmetric] nat_add_distrib)
    have "c \<le> 2 ^ Suc k" using b(2) by simp
    then have "of_int c \<le> (2::real) ^ Suc k"
      by (metis of_int_le_iff of_int_numeral of_int_power)
    moreover have "1 / x \<le> of_int c" by (simp add: c_def)
    ultimately have "1 / x \<le> 2 ^ Suc k" by linarith
    then have "1 / 2 ^ Suc k \<le> x" using assms
      by (simp add: field_simps)
    moreover have "2 powi ilog2 x = 1 / (2::real) ^ Suc k"
    proof -
      have "ilog2 x = - int (Suc k)" using e by simp
      then show ?thesis by (simp only: power_int_minus_divide power_int_of_nat)
    qed
    ultimately have lo: "2 powi ilog2 x \<le> x" by simp
    have "(2::real) ^ k \<le> of_int (c - 1)" using b(1)
      by (metis of_int_le_iff of_int_numeral of_int_power)
    moreover have "of_int (c - 1) < 1 / x" by (simp add: c_def) linarith
    ultimately have "2 ^ k < 1 / x" by linarith
    then have "x < 1 / 2 ^ k" using assms by (simp add: field_simps)
    moreover have "2 powi (ilog2 x + 1) = 1 / (2::real) ^ k"
    proof -
      have "ilog2 x + 1 = - int k" using e by simp
      then show ?thesis by (simp only: power_int_minus_divide power_int_of_nat)
    qed
    ultimately have hi: "x < 2 powi (ilog2 x + 1)" by simp
    from lo hi show ?thesis by blast
  qed
  then show "2 powi ilog2 x \<le> x" and "x < 2 powi (ilog2 x + 1)" by blast+
qed


lemma ilog2_mono:
  assumes "0 < x" and "x \<le> y"
  shows "ilog2 x \<le> ilog2 y"
proof (rule ccontr)
  assume "\<not> ilog2 x \<le> ilog2 y"
  then have "ilog2 y + 1 \<le> ilog2 x" by simp
  then have "(2::real) powi (ilog2 y + 1) \<le> 2 powi ilog2 x"
    by (intro power_int_increasing) simp_all
  moreover have "y < 2 powi (ilog2 y + 1)" using assms by (intro ilog2_bounds) simp
  moreover have "2 powi ilog2 x \<le> x" using assms by (intro ilog2_bounds)
  ultimately show False using assms(2) by linarith
qed

lemma ulp_exp_mono:
  assumes "0 < x" and "x \<le> y"
  shows "ulp_exp x \<le> ulp_exp y"
  using ilog2_mono [OF assms] assms by (simp add: ulp_exp_def)

lemma round32_pos:
  "0 < x \<Longrightarrow> round32 x = of_int (rne (x / 2 powi ulp_exp x)) * 2 powi ulp_exp x"
  by (simp add: round32_def)

lemma round32_upper:
  assumes "0 < x"
  shows "round32 x \<le> 2 ^ 24 * 2 powi ulp_exp x"
proof -
  define u where "u = ulp_exp x"
  have U: "(0::real) < 2 powi u" by simp
  have "ilog2 x - 23 \<le> u" using assms by (simp add: u_def ulp_exp_def)
  then have "ilog2 x + 1 \<le> u + 24" by simp
  then have "(2::real) powi (ilog2 x + 1) \<le> 2 powi (u + 24)"
    by (intro power_int_increasing) simp_all
  also have "\<dots> = 2 powi u * 2 ^ 24" by (simp add: power_int_add)
  finally have "x \<le> 2 powi u * 2 ^ 24"
    using ilog2_bounds(2) [OF assms] by linarith
  then have "x / 2 powi u \<le> 2 ^ 24" using U by (simp add: field_simps)
  then have "rne (x / 2 powi u) \<le> rne (2 ^ 24)" by (rule rne_mono)
  moreover have "rne (2 ^ 24) = 2 ^ 24" using rne_of_int [of "2 ^ 24"] by simp
  ultimately have "rne (x / 2 powi u) \<le> 2 ^ 24" by simp
  then have "(of_int (rne (x / 2 powi u)) :: real) \<le> 2 ^ 24"
    by (metis of_int_le_iff of_int_numeral of_int_power)
  then have "real_of_int (rne (x / 2 powi u)) * 2 powi u \<le> 2 ^ 24 * 2 powi u"
    using U by (simp add: mult_right_mono)
  then show ?thesis using assms by (simp add: round32_pos u_def)
qed

lemma round32_lower:
  assumes "0 < x" and "- 149 < ulp_exp x"
  shows "2 ^ 23 * 2 powi ulp_exp x \<le> round32 x"
proof -
  define u where "u = ulp_exp x"
  have U: "(0::real) < 2 powi u" by simp
  have u: "ilog2 x = u + 23" using assms by (simp add: u_def ulp_exp_def)
  have "(2::real) powi (u + 23) = 2 powi u * 2 ^ 23" by (simp add: power_int_add)
  then have "2 powi u * 2 ^ 23 \<le> x" using ilog2_bounds(1) [OF assms(1)] u by simp
  then have "2 ^ 23 \<le> x / 2 powi u" using U by (simp add: field_simps)
  then have "rne (2 ^ 23) \<le> rne (x / 2 powi u)" by (rule rne_mono)
  moreover have "rne (2 ^ 23) = 2 ^ 23" using rne_of_int [of "2 ^ 23"] by simp
  ultimately have "2 ^ 23 \<le> rne (x / 2 powi u)" by simp
  then have "(2 ^ 23 :: real) \<le> of_int (rne (x / 2 powi u))"
    by (metis of_int_le_iff of_int_numeral of_int_power)
  then have "2 ^ 23 * 2 powi u \<le> real_of_int (rne (x / 2 powi u)) * 2 powi u"
    using U by (simp add: mult_right_mono)
  then show ?thesis using assms by (simp add: round32_pos u_def)
qed

lemma round32_mono_pos:
  assumes "0 < x" and "x \<le> y"
  shows "round32 x \<le> round32 y"
proof -
  have y: "0 < y" using assms by simp
  have uu: "ulp_exp x \<le> ulp_exp y" by (rule ulp_exp_mono [OF assms])
  show ?thesis
  proof (cases "ulp_exp x = ulp_exp y")
    case True
    have U: "(0::real) < 2 powi ulp_exp y" by simp
    have "x / 2 powi ulp_exp y \<le> y / 2 powi ulp_exp y"
      using assms(2) U by (simp add: divide_right_mono)
    then have "rne (x / 2 powi ulp_exp y) \<le> rne (y / 2 powi ulp_exp y)" by (rule rne_mono)
    then have "(of_int (rne (x / 2 powi ulp_exp y)) :: real) \<le> of_int (rne (y / 2 powi ulp_exp y))"
      by simp
    then have "real_of_int (rne (x / 2 powi ulp_exp y)) * 2 powi ulp_exp y
             \<le> real_of_int (rne (y / 2 powi ulp_exp y)) * 2 powi ulp_exp y"
      using U by (simp add: mult_right_mono)
    then show ?thesis using assms(1) y True by (simp add: round32_pos)
  next
    case False
    then have lt: "ulp_exp x + 1 \<le> ulp_exp y" using uu by simp
    have "- 149 \<le> ulp_exp x" by (simp add: ulp_exp_def)
    then have "- 149 < ulp_exp y" using lt by simp
    then have lo: "2 ^ 23 * 2 powi ulp_exp y \<le> round32 y" by (rule round32_lower [OF y])
    have "(2::real) powi (ulp_exp x + 1) \<le> 2 powi ulp_exp y"
      using lt by (intro power_int_increasing) simp_all
    moreover have "(2::real) powi (ulp_exp x + 1) = 2 * 2 powi ulp_exp x"
      by (simp add: power_int_add)
    ultimately have "(2::real) ^ 24 * 2 powi ulp_exp x \<le> 2 ^ 23 * 2 powi ulp_exp y" by simp
    then show ?thesis using round32_upper [OF assms(1)] lo by linarith
  qed
qed

lemma round32_minus: "round32 (- x) = - round32 x"
  by (simp add: round32_def ulp_exp_def rne_minus)

lemma round32_nonneg: "0 \<le> x \<Longrightarrow> 0 \<le> round32 x"
proof -
  assume "0 \<le> x"
  then have "0 \<le> x / 2 powi ulp_exp x" by simp
  then have "rne 0 \<le> rne (x / 2 powi ulp_exp x)" by (rule rne_mono)
  moreover have "rne 0 = 0" using rne_of_int [of 0] by simp
  ultimately have "0 \<le> rne (x / 2 powi ulp_exp x)" by simp
  then show ?thesis by (simp add: round32_def)
qed

lemma round32_mono:
  assumes "x \<le> y"
  shows "round32 x \<le> round32 y"
proof -
  consider "0 < x" | "x \<le> 0" "0 \<le> y" | "y < 0" by linarith
  then show ?thesis
  proof cases
    case 1
    then show ?thesis using assms by (rule round32_mono_pos)
  next
    case 2
    have "0 \<le> round32 (- x)" using 2(1) by (intro round32_nonneg) simp
    then have "round32 x \<le> 0" by (simp add: round32_minus)
    then show ?thesis using round32_nonneg [OF 2(2)] by linarith
  next
    case 3
    then have "0 < - y" and "- y \<le> - x" using assms by simp_all
    then have "round32 (- y) \<le> round32 (- x)" by (rule round32_mono_pos)
    then show ?thesis by (simp add: round32_minus)
  qed
qed

lemma FLT_MAX_pos: "0 < FLT_MAX"
  by (simp add: FLT_MAX_def)

lemma fl32_mono: "x \<le> y \<Longrightarrow> fle (fl32 x) (fl32 y)"
  using round32_mono [of x y] FLT_MAX_pos by (auto simp: fl32_unfold)


section \<open>The range mapper\<close>

lemma round32_FLT_MAX: "round32 FLT_MAX = FLT_MAX"
  by (simp add: fl32_eval)

lemma round32_one: "round32 1 = 1"
  by (simp add: fl32_eval)

lemma round32_2_31: "round32 (2 ^ 31) = 2 ^ 31"
  by (simp add: fl32_eval)

lemma fl32_finite:
  assumes "- FLT_MAX \<le> x" and "x \<le> FLT_MAX"
  shows "fl32 x = Fin (round32 x)"
proof -
  have "round32 x \<le> FLT_MAX"
    using round32_mono [OF assms(2)] by (simp add: round32_FLT_MAX)
  moreover have "- FLT_MAX \<le> round32 x"
    using round32_mono [OF assms(1)] by (simp add: round32_minus round32_FLT_MAX)
  ultimately show ?thesis by (simp add: fl32_unfold)
qed

lemma float_of_int_finite:
  assumes "0 \<le> i" and "i < 2 ^ 31"
  shows "float_of_int i = Fin (round32 (of_int i))"
proof -
  have "real_of_int i \<le> 2 ^ 31" using assms(2) by (metis less_imp_le of_int_le_iff of_int_numeral of_int_power)
  moreover have "(2::real) ^ 31 \<le> FLT_MAX" by (simp add: FLT_MAX_def)
  ultimately have "real_of_int i \<le> FLT_MAX" by linarith
  moreover have "- FLT_MAX \<le> real_of_int i" using assms(1) FLT_MAX_pos by simp
  ultimately show ?thesis by (simp add: float_of_int_def fl32_finite)
qed

lemma fle_PInf: "fle x PInf = (x \<noteq> NaN)"
  by (cases x) simp_all

lemma fle_NInf: "fle NInf x = (x \<noteq> NaN)"
  by (cases x) simp_all

lemma fadd_mono_right:
  assumes "fle x y"
  shows "fle (fadd (Fin s) x) (fadd (Fin s) y)"
  using assms by (cases x; cases y) (simp_all add: fl32_mono fle_PInf fle_NInf)

lemma format_data_dist_mono:
  assumes "0 < n" and "n < 2 ^ 31" and "s < e" and "e - s \<le> FLT_MAX"
    and "i \<le> j" and "j < nat n"
  shows "fle (fadd (Fin s) (fmul (fdiv (fsub (Fin e) (Fin s)) (float_of_int n))
                              (float_of_int (int i))))
             (fadd (Fin s) (fmul (fdiv (fsub (Fin e) (Fin s)) (float_of_int n))
                              (float_of_int (int j))))"
    and "fmul (fdiv (fsub (Fin e) (Fin s)) (float_of_int n)) (float_of_int 0) = Fin 0"
proof -
  define rg where "rg = round32 (e - s)"
  define nf where "nf = round32 (of_int n)"
  define st where "st = round32 (rg / nf)"
  have "- FLT_MAX \<le> e - s" using assms(3) FLT_MAX_pos by linarith
  then have range: "fsub (Fin e) (Fin s) = Fin rg"
    using assms(4) by (simp add: fsub_def rg_def fl32_finite)
  have rg0: "0 \<le> rg" using assms(3) by (simp add: rg_def round32_nonneg)
  have rgm: "rg \<le> FLT_MAX"
    using round32_mono [OF assms(4)] by (simp add: rg_def round32_FLT_MAX)
  have n': "float_of_int n = Fin nf"
    using assms(1,2) by (simp add: nf_def float_of_int_finite)
  have "round32 1 \<le> round32 (of_int n)" using assms(1) by (intro round32_mono) simp
  then have nf1: "1 \<le> nf" by (simp add: nf_def round32_one)
  have q0: "0 \<le> rg / nf" using rg0 nf1 by simp
  have "1 * rg \<le> nf * rg" using nf1 rg0 by (rule mult_right_mono)
  then have "rg / nf \<le> rg" using nf1 by (simp add: field_simps)
  then have qm: "rg / nf \<le> FLT_MAX" using rgm by linarith
  have "- FLT_MAX \<le> rg / nf" using q0 FLT_MAX_pos by linarith
  then have step: "fdiv (fsub (Fin e) (Fin s)) (float_of_int n) = Fin st"
    using qm nf1 by (simp add: range n' st_def fl32_finite)
  have st0: "0 \<le> st" using q0 by (simp add: st_def round32_nonneg)
  have fi: "float_of_int (int k) = Fin (round32 (of_int (int k)))" if "k < nat n" for k
    using that assms(2) by (intro float_of_int_finite) simp_all
  have ij: "round32 (of_int (int i)) \<le> round32 (of_int (int j))"
    using assms(5) by (intro round32_mono) simp
  have "st * round32 (of_int (int i)) \<le> st * round32 (of_int (int j))"
    using ij st0 by (rule mult_left_mono)
  then have "fle (fl32 (st * round32 (of_int (int i)))) (fl32 (st * round32 (of_int (int j))))"
    by (rule fl32_mono)
  then have "fle (fmul (Fin st) (float_of_int (int i))) (fmul (Fin st) (float_of_int (int j)))"
    using assms(5,6) by (simp add: fi)
  then show "fle (fadd (Fin s) (fmul (fdiv (fsub (Fin e) (Fin s)) (float_of_int n))
                              (float_of_int (int i))))
             (fadd (Fin s) (fmul (fdiv (fsub (Fin e) (Fin s)) (float_of_int n))
                              (float_of_int (int j))))"
    unfolding step by (rule fadd_mono_right)
  have z: "fl32 0 = Fin 0" by (simp add: fl32_unfold round32_def FLT_MAX_def)
  show "fmul (fdiv (fsub (Fin e) (Fin s)) (float_of_int n)) (float_of_int 0) = Fin 0"
    unfolding step by (simp add: float_of_int_def z)
qed

text \<open>
  Claim C8, as amended. For every non-empty sequence of \<open>n\<close> raw samples and bounds
  \<open>start\<close>, \<open>end\<close>, \<open>format_data\<close> produces exactly \<open>n\<close> data points; the amplitude of point
  \<open>i\<close> is sample \<open>i\<close> converted to \<open>float\<close>, which is exact, and its distance is
  \<open>start + step * i\<close> with \<open>step = (end - start) / n\<close>, every operation rounded to \<open>float\<close>.
  Consequently, for \<open>n\<close> below \<open>2 ^ 31\<close> and finite bounds, \<open>start\<close> a \<open>float\<close> and
  \<open>start < end\<close>, whose difference does not overflow, the first distance equals \<open>start\<close>
  and the distances never decrease. They need not increase: with start 1, end
  \<open>1 + 2 powi -23\<close> and two samples both distances are 1, the step being absorbed by the
  rounding.
\<close>

theorem format_data_points:
  assumes "samples \<noteq> []"
  shows "length (format_data ((!) samples) (int (length samples)) start end') = length samples
     \<and> (\<forall>i < length samples.
           format_data ((!) samples) (int (length samples)) start end' ! i =
             \<lparr>dist = fadd start
                       (fmul (fdiv (fsub end' start) (float_of_int (int (length samples))))
                          (float_of_int (int i))),
              amp = float_of_u16 (samples ! i)\<rparr>)
     \<and> (\<forall>s e. length samples < 2 ^ 31 \<and> start = Fin s \<and> fl32 s = Fin s \<and> end' = Fin e
               \<and> s < e \<and> e - s \<le> FLT_MAX \<longrightarrow>
           dist (format_data ((!) samples) (int (length samples)) start end' ! 0) = start
           \<and> (\<forall>i j. i \<le> j \<and> j < length samples \<longrightarrow>
                 fle (dist (format_data ((!) samples) (int (length samples)) start end' ! i))
                     (dist (format_data ((!) samples) (int (length samples)) start end' ! j))))"
proof (intro conjI allI impI)
  let ?n = "int (length samples)"
  let ?ds = "format_data ((!) samples) ?n start end'"
  show len: "length ?ds = length samples" by (simp add: format_data_map)
  show nth: "?ds ! i = \<lparr>dist = fadd start (fmul (fdiv (fsub end' start) (float_of_int ?n))
                          (float_of_int (int i))),
              amp = float_of_u16 (samples ! i)\<rparr>" if "i < length samples" for i
    using that by (simp add: format_data_map)
  fix s e
  assume h: "length samples < 2 ^ 31 \<and> start = Fin s \<and> fl32 s = Fin s \<and> end' = Fin e
               \<and> s < e \<and> e - s \<le> FLT_MAX"
  have n0: "0 < ?n" using assms by simp
  have n31: "?n < 2 ^ 31" using h by (metis of_nat_less_iff of_nat_numeral of_nat_power)
  have pos: "0 < length samples" using assms by simp
  have "dist (?ds ! 0) = fadd (Fin s) (fmul (fdiv (fsub (Fin e) (Fin s)) (float_of_int ?n))
                          (float_of_int 0))"
    using nth [OF pos] h by simp
  also have "\<dots> = fadd (Fin s) (Fin 0)"
    using format_data_dist_mono(2) [OF n0 n31, of s e 0 0] h pos by simp
  also have "\<dots> = start" using h by simp
  finally show "dist (?ds ! 0) = start" .
  fix i j
  assume ij: "i \<le> j \<and> j < length samples"
  then have "fle (fadd (Fin s) (fmul (fdiv (fsub (Fin e) (Fin s)) (float_of_int ?n))
                              (float_of_int (int i))))
             (fadd (Fin s) (fmul (fdiv (fsub (Fin e) (Fin s)) (float_of_int ?n))
                              (float_of_int (int j))))"
    using h by (intro format_data_dist_mono(1) [OF n0 n31]) simp_all
  then show "fle (dist (?ds ! i)) (dist (?ds ! j))"
    using ij h nth [of i] nth [of j] by simp
qed

theorem format_data_not_strict_counterexample:
  "format_data ((!) [5, 6]) 2 (Fin 1) (Fin (1 + 1 / 2 ^ 23))
     = [\<lparr>dist = Fin 1, amp = Fin 5\<rparr>, \<lparr>dist = Fin 1, amp = Fin 6\<rparr>]
   \<and> flt (Fin 1) (Fin (1 + 1 / 2 ^ 23))
   \<and> \<not> flt (dist (format_data ((!) [5, 6]) 2 (Fin 1) (Fin (1 + 1 / 2 ^ 23)) ! 0))
           (dist (format_data ((!) [5, 6]) 2 (Fin 1) (Fin (1 + 1 / 2 ^ 23)) ! 1))"
proof -
  have "format_data ((!) [5, 6]) 2 (Fin 1) (Fin (1 + 1 / 2 ^ 23))
     = [\<lparr>dist = Fin 1, amp = Fin 5\<rparr>, \<lparr>dist = Fin 1, amp = Fin 6\<rparr>]"
    by (simp add: run_eval)
  then show ?thesis by simp
qed


theorem format_data_points_witness:
  "[5, 6, 7, 8 :: 16 word] \<noteq> [] \<and> fl32 0 = Fin 0 \<and> (1 :: real) - 0 \<le> FLT_MAX
   \<and> format_data ((!) [5, 6, 7, 8]) 4 (Fin 0) (Fin 1)
       = [\<lparr>dist = Fin 0, amp = Fin 5\<rparr>, \<lparr>dist = Fin (1 / 4), amp = Fin 6\<rparr>,
          \<lparr>dist = Fin (1 / 2), amp = Fin 7\<rparr>, \<lparr>dist = Fin (3 / 4), amp = Fin 8\<rparr>]
   \<and> length (format_data ((!) [5, 6, 7, 8]) 4 (Fin 0) (Fin 1)) = 4
   \<and> dist (format_data ((!) [5, 6, 7, 8]) 4 (Fin 0) (Fin 1) ! 0) = Fin 0
   \<and> fle (dist (format_data ((!) [5, 6, 7, 8]) 4 (Fin 0) (Fin 1) ! 1))
           (dist (format_data ((!) [5, 6, 7, 8]) 4 (Fin 0) (Fin 1) ! 2))"
proof -
  let ?samples = "[5, 6, 7, 8 :: 16 word]"
  let ?ds = "format_data ((!) ?samples) (int (length ?samples)) (Fin 0) (Fin 1)"
  have ne: "?samples \<noteq> []" by simp
  have z: "fl32 0 = Fin 0" by (simp add: fl32_unfold round32_def FLT_MAX_def)
  have m: "(1 :: real) - 0 \<le> FLT_MAX" by (simp add: FLT_MAX_def)
  have h: "length ?samples < 2 ^ 31 \<and> Fin 0 = Fin 0 \<and> fl32 0 = Fin 0 \<and> Fin 1 = Fin 1
             \<and> (0 :: real) < 1 \<and> (1 :: real) - 0 \<le> FLT_MAX"
    using z m by simp
  have len: "length ?ds = length ?samples"
    using format_data_points [OF ne, of "Fin 0" "Fin 1"] by blast
  have rest: "dist (?ds ! 0) = Fin 0
      \<and> (\<forall>i j. i \<le> j \<and> j < length ?samples \<longrightarrow> fle (dist (?ds ! i)) (dist (?ds ! j)))"
    using format_data_points [OF ne, of "Fin 0" "Fin 1"] h by blast
  then have "fle (dist (?ds ! 1)) (dist (?ds ! 2))" by simp
  moreover have "format_data ((!) ?samples) 4 (Fin 0) (Fin 1)
       = [\<lparr>dist = Fin 0, amp = Fin 5\<rparr>, \<lparr>dist = Fin (1 / 4), amp = Fin 6\<rparr>,
          \<lparr>dist = Fin (1 / 2), amp = Fin 7\<rparr>, \<lparr>dist = Fin (3 / 4), amp = Fin 8\<rparr>]"
    by (simp add: run_eval)
  ultimately show ?thesis using len rest z m by simp
qed


section \<open>The calibration round trip\<close>

text \<open>
  The digits that \<open>decimal\<close> writes are read back by \<open>scan_integer\<close> and \<open>scan_float\<close> as
  the number written.
\<close>

lemma digit_char_cases:
  "d < 10 \<Longrightarrow> isdigit (digit_char d) \<and> digit_val (digit_char d) = d"
proof -
  assume "d < 10"
  then have "d = 0 \<or> d = 1 \<or> d = 2 \<or> d = 3 \<or> d = 4 \<or> d = 5 \<or> d = 6 \<or> d = 7 \<or> d = 8 \<or> d = 9"
    by arith
  then show ?thesis
    by (auto simp: digit_char_def isdigit_def digit_val_def)
qed

lemma decimal_digits: "\<forall>c \<in> set (decimal n). isdigit c"
proof (induction n rule: decimal.induct)
  case (1 n)
  show ?case
  proof (cases "n < 10")
    case True
    then show ?thesis using digit_char_cases [of n] by (simp add: decimal_small)
  next
    case False
    then have "10 \<le> n" by simp
    moreover have "n mod 10 < 10" by simp
    ultimately show ?thesis
      using 1 False digit_char_cases [of "n mod 10"] by (simp add: decimal_large)
  qed
qed

lemma decimal_nonempty: "decimal n \<noteq> []"
  by (cases "n < 10") (simp_all add: decimal_small decimal_large)

lemma digits_val_snoc: "digits_val (ds @ [c]) = 10 * digits_val ds + digit_val c"
  by (simp add: digits_val_def)

lemma digits_val_decimal: "digits_val (decimal n) = n"
proof (induction n rule: decimal.induct)
  case (1 n)
  show ?case
  proof (cases "n < 10")
    case True
    then show ?thesis using digit_char_cases [of n] by (simp add: decimal_small digits_val_def)
  next
    case False
    then have "10 \<le> n" by simp
    moreover have "n mod 10 < 10" by simp
    ultimately show ?thesis
      using 1 False digit_char_cases [of "n mod 10"] by (simp add: decimal_large digits_val_snoc)
  qed
qed

lemma digits_val_append:
  "digits_val (xs @ ys) = digits_val xs * 10 ^ length ys + digits_val ys"
proof (induction ys rule: rev_induct)
  case Nil
  then show ?case by (simp add: digits_val_def)
next
  case (snoc c ys)
  have "digits_val (xs @ ys @ [c]) = 10 * digits_val (xs @ ys) + digit_val c"
    using digits_val_snoc [of "xs @ ys" c] by simp
  then show ?case by (simp add: snoc digits_val_snoc algebra_simps)
qed

lemma digits_val_zeros: "digits_val (replicate k CHR ''0'') = 0"
proof (induction k)
  case 0
  then show ?case by (simp add: digits_val_def)
next
  case (Suc k)
  have "replicate (Suc k) CHR ''0'' = replicate k CHR ''0'' @ [CHR ''0'']"
    by (simp add: replicate_append_same)
  then have "digits_val (replicate (Suc k) CHR ''0'') = 10 * digits_val (replicate k CHR ''0'') + digit_val CHR ''0''"
    by (simp only: digits_val_snoc)
  then show ?case using Suc by (simp add: digit_val_def)
qed

lemma length_decimal: "0 < p \<Longrightarrow> n < 10 ^ p \<Longrightarrow> length (decimal n) \<le> p"
proof (induction n arbitrary: p rule: decimal.induct)
  case (1 n)
  show ?case
  proof (cases "n < 10")
    case True
    then show ?thesis using 1(2) by (simp add: decimal_small)
  next
    case False
    then have ge: "10 \<le> n" by simp
    then have "1 < p" using 1(2,3) by (cases "p = 1") auto
    then obtain q where q: "p = Suc q" "0 < q" by (cases p) auto
    have "n div 10 < 10 ^ q" using 1(3) q by (simp add: less_mult_imp_div_less)
    then have "length (decimal (n div 10)) \<le> q" using 1(1) [OF False q(2)] by simp
    then show ?thesis using ge q by (simp add: decimal_large)
  qed
qed

lemma isdigit_not_special:
  "isdigit c \<Longrightarrow> \<not> isspace c \<and> c \<noteq> CHR ''-'' \<and> c \<noteq> CHR ''+'' \<and> c \<noteq> CHR ''.''
     \<and> c \<noteq> CHR ''i'' \<and> c \<noteq> CHR ''I'' \<and> c \<noteq> CHR ''n'' \<and> c \<noteq> CHR ''N''
     \<and> c \<noteq> CHR ''x'' \<and> c \<noteq> CHR ''X''"
  by (auto simp: isdigit_def isspace_def)

lemma not_isdigit_separator: "\<not> isdigit CHR '' '' \<and> \<not> isdigit newline \<and> \<not> isdigit CHR ''.''"
  by (simp add: isdigit_def newline_def)

lemma takeWhile_digits:
  "\<forall>c \<in> set ds. isdigit c \<Longrightarrow> \<not> isdigit c \<Longrightarrow> takeWhile isdigit (ds @ c # r) = ds"
  by (simp add: takeWhile_append2)

lemma dropWhile_digits:
  "\<forall>c \<in> set ds. isdigit c \<Longrightarrow> \<not> isdigit c \<Longrightarrow> dropWhile isdigit (ds @ c # r) = c # r"
  by (simp add: dropWhile_append2)

lemma scan_integer_digits:
  assumes "ds \<noteq> []" and "\<forall>c \<in> set ds. isdigit c" and "\<not> isdigit c" and "ws = [] \<or> ws = '' ''"
  shows "scan_integer (ws @ ds @ c # r) = Converted (int (digits_val ds)) (c # r)"
proof -
  obtain d es where ds: "ds = d # es" using assms(1) by (cases ds) auto
  then have d: "isdigit d" using assms(2) by simp
  have sk: "skip_space (ws @ ds @ c # r) = ds @ c # r"
    using assms(4) isdigit_not_special [OF d] by (auto simp: skip_space_def ds isspace_def)
  have sg: "scan_sign (ds @ c # r) = (False, ds @ c # r)"
    using isdigit_not_special [OF d] by (simp add: scan_sign_def ds)
  show ?thesis
    unfolding scan_integer_def sk sg
    using assms(1) by (simp add: takeWhile_digits [OF assms(2,3)] dropWhile_digits [OF assms(2,3)])
qed

lemma fscanf_hu_decimal:
  assumes "ws = [] \<or> ws = '' ''"
  shows "fscanf_hu (ws @ decimal (unat w) @ '' '' @ r) = (1, Some w, '' '' @ r)"
proof -
  have "scan_integer (ws @ decimal (unat w) @ CHR '' '' # r) = Converted (int (unat w)) (CHR '' '' # r)"
    using scan_integer_digits [OF decimal_nonempty decimal_digits _ assms, of "CHR '' ''" "unat w" r]
      not_isdigit_separator by (simp add: digits_val_decimal)
  then show ?thesis by (simp add: fscanf_hu_def)
qed

lemma fscanf_keyword_u_decimal:
  "fscanf_keyword_u ''n'' (''n '' @ decimal k @ newline # r) = (1, Some (word_of_nat k), skip_space r)"
proof -
  have "scan_integer ('' '' @ decimal k @ newline # r) = Converted (int k) (newline # r)"
    using scan_integer_digits [OF decimal_nonempty decimal_digits, of newline "'' ''" k r]
      not_isdigit_separator by (simp add: digits_val_decimal)
  moreover have "skip_space (newline # r) = skip_space r"
    by (simp add: skip_space_def isspace_def newline_def)
  ultimately show ?thesis by (simp add: fscanf_keyword_u_def)
qed

lemma skip_space_tokens:
  "skip_space (concat (map (\<lambda>w. decimal (unat w) @ '' '') samples))
     = concat (map (\<lambda>w. decimal (unat w) @ '' '') samples)"
proof (cases samples)
  case Nil
  then show ?thesis by (simp add: skip_space_def)
next
  case (Cons w ws)
  obtain d es where ds: "decimal (unat w) = d # es" using decimal_nonempty [of "unat w"] by (cases "decimal (unat w)") auto
  then have "isdigit d" using decimal_digits [of "unat w"] by simp
  then show ?thesis using isdigit_not_special [of d] by (simp add: Cons ds skip_space_def)
qed

lemma scan_samples_tokens:
  "ws = [] \<or> ws = '' '' \<Longrightarrow> i + length samples = unat n \<Longrightarrow>
   \<exists>fin'. scan_samples n i res threshold_data stores
            (ws @ concat (map (\<lambda>w. decimal (unat w) @ '' '') samples))
     = (res + of_nat (length samples),
        (\<lambda>j. if i \<le> j \<and> j < i + length samples then samples ! (j - i) else threshold_data j),
        stores @ [i..<i + length samples], fin')"
proof (induction samples arbitrary: i res threshold_data stores ws)
  case Nil
  have "\<not> i < unat n" using Nil by simp
  moreover have "(\<lambda>j. if i \<le> j \<and> j < i + length ([] :: 16 word list) then [] ! (j - i)
                    else threshold_data j) = threshold_data"
    by (rule ext) auto
  ultimately show ?case by (simp add: scan_samples_done)
next
  case (Cons w samples)
  let ?rest = "concat (map (\<lambda>w. decimal (unat w) @ '' '') samples)"
  have lt: "i < unat n" and rest: "(i + 1) + length samples = unat n" using Cons.prems(2) by simp_all
  have tok: "fscanf_hu (ws @ concat (map (\<lambda>w. decimal (unat w) @ '' '') (w # samples)))
           = (1, Some w, '' '' @ ?rest)"
    using fscanf_hu_decimal [OF Cons.prems(1), of w ?rest] by simp
  have step: "scan_samples n i res threshold_data stores
                (ws @ concat (map (\<lambda>w. decimal (unat w) @ '' '') (w # samples)))
      = scan_samples n (i + 1) (res + 1) (threshold_data(i := w)) (stores @ [i]) ('' '' @ ?rest)"
    apply (subst scan_samples_step [OF lt])
    apply (simp only: tok)
    apply simp
    done
  have l: "(stores @ [i]) @ [i + 1..<i + 1 + length samples] = stores @ [i..<i + length (w # samples)]"
    by (simp add: upt_conv_Cons del: upt_Suc)
  have r: "res + 1 + of_nat (length samples) = res + of_nat (length (w # samples))"
    by simp
  have b: "(\<lambda>j. if i + 1 \<le> j \<and> j < i + 1 + length samples then samples ! (j - (i + 1))
                else (threshold_data(i := w)) j)
         = (\<lambda>j. if i \<le> j \<and> j < i + length (w # samples) then (w # samples) ! (j - i)
                else threshold_data j)"
  proof
    fix j
    show "(if i + 1 \<le> j \<and> j < i + 1 + length samples then samples ! (j - (i + 1))
                else (threshold_data(i := w)) j)
         = (if i \<le> j \<and> j < i + length (w # samples) then (w # samples) ! (j - i)
                else threshold_data j)"
    proof (cases "j = i")
      case True
      then show ?thesis by simp
    next
      case False
      then show ?thesis by (auto simp: nth_Cons')
    qed
  qed
  obtain fin' where
    "scan_samples n (i + 1) (res + 1) (threshold_data(i := w)) (stores @ [i]) ('' '' @ ?rest)
       = (res + 1 + of_nat (length samples),
          (\<lambda>j. if i + 1 \<le> j \<and> j < i + 1 + length samples then samples ! (j - (i + 1))
                else (threshold_data(i := w)) j),
          (stores @ [i]) @ [i + 1..<i + 1 + length samples], fin')"
    using Cons.IH [OF _ rest, of "'' ''" "res + 1" "threshold_data(i := w)" "stores @ [i]"] by blast
  then have "scan_samples n i res threshold_data stores
                (ws @ concat (map (\<lambda>w. decimal (unat w) @ '' '') (w # samples)))
       = (res + of_nat (length (w # samples)),
          (\<lambda>j. if i \<le> j \<and> j < i + length (w # samples) then (w # samples) ! (j - i)
                else threshold_data j),
          stores @ [i..<i + length (w # samples)], fin')"
    unfolding step l r b .
  then show ?case by blast
qed

lemma space_minus: "isspace CHR '' '' \<and> \<not> isspace CHR ''-''"
  by (simp add: isspace_def)

lemma scan_float_digits:
  assumes "ds \<noteq> []" and "\<forall>c \<in> set ds. isdigit c" and "\<forall>c \<in> set fs. isdigit c"
  shows "scan_float ('' '' @ (if neg then ''-'' else []) @ ds @ ''.'' @ fs @ newline # r)
     = Converted (fl32 ((if neg then - 1 else 1) * (real (digits_val (ds @ fs)) / 10 ^ length fs)))
         (newline # r)"
proof -
  let ?body = "ds @ ''.'' @ fs @ newline # r"
  obtain d es where ds: "ds = d # es" using assms(1) by (cases ds) auto
  then have d: "isdigit d" using assms(2) by simp
  note sp = isdigit_not_special [OF d]
  have sk: "skip_space ('' '' @ (if neg then ''-'' else []) @ ds @ ''.'' @ fs @ newline # r)
          = (if neg then ''-'' else []) @ ?body"
    using sp space_minus by (simp add: skip_space_def ds)
  have ne: "(if neg then ''-'' else []) @ ?body \<noteq> []"
    by (simp add: ds)
  have sg: "scan_sign ((if neg then ''-'' else []) @ ?body) = (neg, ?body)"
    using sp by (simp add: scan_sign_def ds)
  have mi: "match_word ''infinity'' ''INFINITY'' ?body = 0"
    using sp by (simp add: ds)
  have mn: "match_word ''nan'' ''NAN'' ?body = 0"
    using sp by (simp add: ds)
  have hx: "\<not> hexadecimal_prefix ?body"
  proof (cases es)
    case Nil
    then show ?thesis by (simp add: hexadecimal_prefix_def ds)
  next
    case (Cons e es')
    then have "isdigit e" using assms(2) ds by simp
    then show ?thesis using isdigit_not_special [of e] by (simp add: hexadecimal_prefix_def ds Cons)
  qed
  have nd: "\<not> isdigit CHR ''.''" and nn: "\<not> isdigit newline"
    using not_isdigit_separator by simp_all
  have tw: "takeWhile isdigit ?body = ds"
    using takeWhile_digits [OF assms(2) nd, of "fs @ newline # r"] by simp
  have dw: "dropWhile isdigit ?body = CHR ''.'' # fs @ newline # r"
    using dropWhile_digits [OF assms(2) nd, of "fs @ newline # r"] by simp
  have sf: "scan_fraction isdigit (CHR ''.'' # fs @ newline # r) = (fs, newline # r)"
    by (simp add: scan_fraction_def takeWhile_digits [OF assms(3) nn] dropWhile_digits [OF assms(3) nn])
  have se: "scan_exponent CHR ''e'' CHR ''E'' (newline # r) = (Some 0, newline # r)"
    by (simp add: scan_exponent_def newline_def)
  have sn: "scan_number isdigit digits_val 10 CHR ''e'' CHR ''E'' 10 neg ?body
          = Converted (fl32 ((if neg then - 1 else 1) * (real (digits_val (ds @ fs)) / 10 ^ length fs)))
              (newline # r)"
    unfolding scan_number_def tw dw sf using assms(1) by (simp add: se)
  show ?thesis
    unfolding scan_float_def sk sg using ne mi mn hx sn by simp
qed

lemma rne_nonneg: "0 \<le> x \<Longrightarrow> 0 \<le> rne x"
proof -
  assume "0 \<le> x"
  then have "0 \<le> \<lfloor>x\<rfloor>" by simp
  then show ?thesis using rne_cases [of x] by auto
qed

lemma scan_float_fixed_point:
  "scan_float ('' '' @ fixed_point 6 x @ newline # r)
     = Converted (fl32 (real_of_int (rne (x * 10 ^ 6)) / 10 ^ 6)) (newline # r)"
proof -
  define m where "m = nat (rne (\<bar>x\<bar> * 10 ^ 6))"
  define ip where "ip = m div 10 ^ 6"
  define fp where "fp = m mod 10 ^ 6"
  define fs where "fs = replicate (6 - length (decimal fp)) CHR ''0'' @ decimal fp"
  have fx: "fixed_point 6 x = (if x < 0 then ''-'' else []) @ decimal ip @ ''.'' @ fs"
    by (simp add: fixed_point_def m_def ip_def fp_def fs_def)
  have "fp < 10 ^ 6" by (simp add: fp_def)
  then have "length (decimal fp) \<le> 6" by (intro length_decimal) simp_all
  then have len: "length fs = 6" by (simp add: fs_def)
  have fsd: "\<forall>c \<in> set fs. isdigit c"
    using decimal_digits [of fp] by (auto simp: fs_def isdigit_def)
  have "digits_val fs = digits_val (replicate (6 - length (decimal fp)) CHR ''0'') * 10 ^ length (decimal fp)
                          + digits_val (decimal fp)"
    unfolding fs_def by (rule digits_val_append)
  then have vfs: "digits_val fs = fp" by (simp add: digits_val_zeros digits_val_decimal)
  have "digits_val (decimal ip @ fs) = ip * 10 ^ 6 + fp"
    using digits_val_append [of "decimal ip" fs] by (simp add: len vfs digits_val_decimal)
  then have v: "digits_val (decimal ip @ fs) = m"
    by (simp add: ip_def fp_def)
  have nn: "0 \<le> rne (\<bar>x\<bar> * 10 ^ 6)" by (intro rne_nonneg) simp
  then have rm: "real m = real_of_int (rne (\<bar>x\<bar> * 10 ^ 6))" by (simp add: m_def)
  have val: "(if x < 0 then - 1 else 1) * (real m / 10 ^ 6) = real_of_int (rne (x * 10 ^ 6)) / 10 ^ 6"
  proof (cases "x < 0")
    case True
    then have "\<bar>x\<bar> * 10 ^ 6 = - (x * 10 ^ 6)" by simp
    then have "rne (\<bar>x\<bar> * 10 ^ 6) = - rne (x * 10 ^ 6)" by (simp only: rne_minus)
    then show ?thesis using True by (simp add: rm)
  next
    case False
    then have "\<bar>x\<bar> = x" by simp
    then show ?thesis using False by (simp add: rm)
  qed
  have "scan_float ('' '' @ (if x < 0 then ''-'' else []) @ decimal ip @ ''.'' @ fs @ newline # r)
     = Converted (fl32 ((if x < 0 then - 1 else 1) * (real (digits_val (decimal ip @ fs)) / 10 ^ length fs)))
         (newline # r)"
    by (rule scan_float_digits [OF decimal_nonempty decimal_digits fsd])
  then show ?thesis by (simp only: fx v len val append_assoc)
qed

lemma scan_float_fprintf:
  "scan_float ('' '' @ fprintf_f 6 v @ newline # r)
     = Converted (case v of Fin x \<Rightarrow> fl32 (real_of_int (rne (x * 10 ^ 6)) / 10 ^ 6)
                  | PInf \<Rightarrow> PInf | NInf \<Rightarrow> NInf | NaN \<Rightarrow> NaN)
         (newline # r)"
proof (cases v)
  case (Fin x)
  then show ?thesis using scan_float_fixed_point [of x r] by simp
next
  case PInf
  then show ?thesis
    by (simp add: scan_float_def skip_space_def isspace_def scan_sign_def scan_infinity_def newline_def)
next
  case NInf
  then show ?thesis
    by (simp add: scan_float_def skip_space_def isspace_def scan_sign_def scan_infinity_def newline_def)
next
  case NaN
  then show ?thesis
    by (simp add: scan_float_def skip_space_def isspace_def scan_sign_def scan_nan_def newline_def)
qed

lemma skip_space_newline: "skip_space (newline # r) = skip_space r"
  by (simp add: skip_space_def isspace_def newline_def)

lemma fscanf_start_fprintf:
  "fscanf_keyword_f ''start'' (''start '' @ fprintf_f 6 v @ newline # r)
     = (1, Some (case v of Fin x \<Rightarrow> fl32 (real_of_int (rne (x * 10 ^ 6)) / 10 ^ 6)
                 | PInf \<Rightarrow> PInf | NInf \<Rightarrow> NInf | NaN \<Rightarrow> NaN),
        skip_space r)"
proof -
  have "match_literal ''start'' (''start '' @ fprintf_f 6 v @ newline # r)
          = Converted () ('' '' @ fprintf_f 6 v @ newline # r)"
    by simp
  then show ?thesis
    unfolding fscanf_keyword_f_def by (simp only: scan_float_fprintf skip_space_newline scanned.case)
qed

lemma fscanf_length_fprintf:
  "fscanf_keyword_f ''length'' (''length '' @ fprintf_f 6 v @ newline # r)
     = (1, Some (case v of Fin x \<Rightarrow> fl32 (real_of_int (rne (x * 10 ^ 6)) / 10 ^ 6)
                 | PInf \<Rightarrow> PInf | NInf \<Rightarrow> NInf | NaN \<Rightarrow> NaN),
        skip_space r)"
proof -
  have "match_literal ''length'' (''length '' @ fprintf_f 6 v @ newline # r)
          = Converted () ('' '' @ fprintf_f 6 v @ newline # r)"
    by simp
  then show ?thesis
    unfolding fscanf_keyword_f_def by (simp only: scan_float_fprintf skip_space_newline scanned.case)
qed

lemma skip_space_letter:
  "skip_space (CHR ''l'' # r) = CHR ''l'' # r \<and> skip_space (CHR ''n'' # r) = CHR ''n'' # r"
  by (simp add: skip_space_def isspace_def)

lemma tokens_of_buffer:
  "map (\<lambda>i. decimal (unat (if i < length samples then samples ! i else data i)) @ '' '')
     [0..<length samples]
   = map (\<lambda>w. decimal (unat w) @ '' '') samples"
  by (rule nth_equalityI) simp_all

lemma sweep_length:
  assumes "length samples \<le> MAX_DATA_SIZE"
  shows "min_u16 (word_of_nat (length samples)) (word_of_nat MAX_DATA_SIZE) = word_of_nat (length samples)
         \<and> unat (word_of_nat (length samples) :: 16 word) = length samples
         \<and> unat (word_of_nat (length samples) :: 32 word) = length samples"
proof -
  have l: "length samples \<le> 3000" using assms by (simp add: MAX_DATA_SIZE_def)
  then have a: "unat (word_of_nat (length samples) :: 16 word) = length samples"
    by (simp add: unat_of_nat)
  have b: "unat (word_of_nat (length samples) :: 32 word) = length samples"
    using l by (simp add: unat_of_nat)
  have "unat (word_of_nat MAX_DATA_SIZE :: 16 word) = 3000"
    by (simp add: MAX_DATA_SIZE_def)
  then have "min_u16 (word_of_nat (length samples)) (word_of_nat MAX_DATA_SIZE)
               = (word_of_nat (length samples) :: 16 word)"
    using a l by (auto simp: min_u16_def word_less_nat_alt word_unat_eq_iff)
  then show ?thesis using a b by simp
qed


text \<open>
  Claim C6, as amended. For every configuration and every sweep of at most
  \<open>MAX_DATA_SIZE\<close> samples, \<open>write_calibration_data\<close> writes the line \<open>start\<close> and the
  line \<open>length\<close>, each value in the form \<open>%f\<close> with six digits after the point, the
  line \<open>n\<close> with the number of samples, and the samples in decimal, each followed by a
  space. Scanning that text, as \<open>read_and_calculate_threshold\<close> does, succeeds and gives
  back the identical count and the identical samples, stored at the indices from 0. A
  finite start or length comes back as the \<open>float\<close> nearest to its value rounded to six
  decimals, an infinite one or a NaN as itself. That is the identical value for the
  \<open>float\<close> values 0.1 and 0.5 of the record with the samples 10, 20, 30, but not for
  every record: the start \<open>1 / 1024\<close> is written as \<open>0.000977\<close> and comes back as the
  \<open>float\<close> nearest to 0.000977.
\<close>

theorem calibration_round_trip:
  assumes "create_sensor_service service = Inr ()"
    and "envelope_get_next service 0 = Some samples"
    and "length samples \<le> MAX_DATA_SIZE"
  shows "\<exists>text.
           write_calibration_data app_config service True data = Inr text
           \<and> text = ''start '' @ fprintf_f 6 (start_range (radar_config app_config)) @ [newline]
                    @ ''length '' @ fprintf_f 6 (length_range (radar_config app_config)) @ [newline]
                    @ ''n '' @ decimal (length samples) @ [newline]
                    @ concat (map (\<lambda>w. decimal (unat w) @ '' '') samples)
           \<and> scan_calibration (Some text) threshold_data
               = Inr (case start_range (radar_config app_config) of
                        Fin x \<Rightarrow> fl32 (real_of_int (rne (x * 10 ^ 6)) / 10 ^ 6)
                      | PInf \<Rightarrow> PInf | NInf \<Rightarrow> NInf | NaN \<Rightarrow> NaN,
                      case length_range (radar_config app_config) of
                        Fin x \<Rightarrow> fl32 (real_of_int (rne (x * 10 ^ 6)) / 10 ^ 6)
                      | PInf \<Rightarrow> PInf | NInf \<Rightarrow> NInf | NaN \<Rightarrow> NaN,
                      word_of_nat (length samples),
                      \<lambda>i. if i < length samples then samples ! i else threshold_data i,
                      [0..<length samples])"
proof -
  let ?start = "start_range (radar_config app_config)"
  let ?length = "length_range (radar_config app_config)"
  let ?reread = "\<lambda>v. case v of Fin x \<Rightarrow> fl32 (real_of_int (rne (x * 10 ^ 6)) / 10 ^ 6)
                      | PInf \<Rightarrow> PInf | NInf \<Rightarrow> NInf | NaN \<Rightarrow> NaN"
  let ?toks = "concat (map (\<lambda>w. decimal (unat w) @ '' '') samples)"
  let ?r3 = "''n '' @ decimal (length samples) @ newline # ?toks"
  let ?r2 = "''length '' @ fprintf_f 6 ?length @ newline # ?r3"
  let ?text = "''start '' @ fprintf_f 6 ?start @ newline # ?r2"
  let ?n = "word_of_nat (length samples) :: 32 word"
  note len = sweep_length [OF assms(3)]
  have sw: "get_one_sweep service 0 data (word_of_nat MAX_DATA_SIZE)
          = Inr (word_of_nat (length samples),
                 \<lambda>i. if i < length samples then samples ! i else data i)"
    using assms(2) len by (simp add: get_one_sweep_def)
  have w: "write_calibration_data app_config service True data = Inr ?text"
    unfolding write_calibration_data_def assms(1) sw
    by (simp add: len tokens_of_buffer)
  have k1: "fscanf_keyword_f ''start'' ?text = (1, Some (?reread ?start), ?r2)"
    using fscanf_start_fprintf [of ?start ?r2] skip_space_letter by simp
  have k2: "fscanf_keyword_f ''length'' ?r2 = (1, Some (?reread ?length), ?r3)"
    using fscanf_length_fprintf [of ?length ?r3] skip_space_letter by simp
  have k3: "fscanf_keyword_u ''n'' ?r3 = (1, Some ?n, ?toks)"
    using fscanf_keyword_u_decimal [of "length samples" ?toks] skip_space_tokens [of samples]
    by simp
  have "0 + length samples = unat ?n" using len by simp
  then obtain fin' where
    "scan_samples ?n 0 0 threshold_data [] ([] @ ?toks)
       = (0 + of_nat (length samples),
          (\<lambda>j. if 0 \<le> j \<and> j < 0 + length samples then samples ! (j - 0) else threshold_data j),
          [] @ [0..<0 + length samples], fin')"
    using scan_samples_tokens [of "[]" 0 samples ?n 0 threshold_data "[]"] by blast
  then have ss: "scan_samples ?n 0 0 threshold_data [] ?toks
       = (of_nat (length samples),
          (\<lambda>j. if j < length samples then samples ! j else threshold_data j),
          [0..<length samples], fin')"
    by (simp cong: if_cong)
  have r: "scan_calibration (Some ?text) threshold_data
        = Inr (?reread ?start, ?reread ?length, ?n,
               \<lambda>i. if i < length samples then samples ! i else threshold_data i,
               [0..<length samples])"
    unfolding scan_calibration_def
    by (simp only: option.case k1 k2 k3 prod.case ss) (simp add: len)
  have t: "?text = ''start '' @ fprintf_f 6 ?start @ [newline]
                    @ ''length '' @ fprintf_f 6 ?length @ [newline]
                    @ ''n '' @ decimal (length samples) @ [newline] @ ?toks"
    by simp
  from w t r show ?thesis by blast
qed

theorem calibration_round_trip_witness:
  "create_sensor_service
     \<lparr>sweep_configuration_available = True, service_created = True,
      envelope_get_next = (\<lambda>k. Some [10, 20, 30])\<rparr> = Inr ()
   \<and> length [10, 20, 30 :: 16 word] \<le> MAX_DATA_SIZE
   \<and> (\<exists>text.
         write_calibration_data
           ((init_configuration 1)\<lparr>radar_config := (radar_config (init_configuration 1))
               \<lparr>start_range := fl32 (1 / 10), length_range := fl32 (1 / 2)\<rparr>\<rparr>)
           \<lparr>sweep_configuration_available = True, service_created = True,
            envelope_get_next = (\<lambda>k. Some [10, 20, 30])\<rparr> True (\<lambda>i. 0)
           = Inr text
         \<and> text = ''start 0.100000'' @ [newline] @ ''length 0.500000'' @ [newline]
                  @ ''n 3'' @ [newline] @ ''10 20 30 ''
         \<and> scan_calibration (Some text) (\<lambda>i. 0)
             = Inr (fl32 (1 / 10), fl32 (1 / 2), 3,
                    \<lambda>i. if i < 3 then [10, 20, 30] ! i else 0, [0, 1, 2]))"
proof -
  let ?cfg = "(init_configuration 1)\<lparr>radar_config := (radar_config (init_configuration 1))
         \<lparr>start_range := fl32 (1 / 10), length_range := fl32 (1 / 2)\<rparr>\<rparr>"
  let ?sv = "\<lparr>sweep_configuration_available = True, service_created = True,
      envelope_get_next = (\<lambda>k. Some [10, 20, 30 :: 16 word])\<rparr>"
  let ?samples = "[10, 20, 30 :: 16 word]"
  have h1: "create_sensor_service ?sv = Inr ()" by (simp add: create_sensor_service_def)
  have h2: "envelope_get_next ?sv 0 = Some ?samples" by simp
  have h3: "length ?samples \<le> MAX_DATA_SIZE" by (simp add: MAX_DATA_SIZE_def)
  have f: "fl32 (1 / 10) = Fin (13421773 / 134217728) \<and> fl32 (1 / 2) = Fin (1 / 2)"
    by (simp add: fl32_eval)
  have s: "start_range (radar_config ?cfg) = Fin (13421773 / 134217728)"
    and l: "length_range (radar_config ?cfg) = Fin (1 / 2)"
    by (simp_all add: f)
  have r1: "rne (13421773 / 134217728 * 10 ^ 6) = 100000" and r2: "rne (1 / 2 * 10 ^ 6) = 500000"
    by (simp_all add: rne_unfold)
  have b1: "fl32 (real_of_int (rne (13421773 / 134217728 * 10 ^ 6)) / 10 ^ 6) = fl32 (1 / 10)"
    unfolding r1 by simp
  have b2: "fl32 (real_of_int (rne (1 / 2 * 10 ^ 6)) / 10 ^ 6) = fl32 (1 / 2)"
    unfolding r2 by simp
  have t: "''start '' @ fprintf_f 6 (Fin (13421773 / 134217728)) @ [newline]
             @ ''length '' @ fprintf_f 6 (Fin (1 / 2)) @ [newline]
             @ ''n '' @ decimal (length ?samples) @ [newline]
             @ concat (map (\<lambda>w. decimal (unat w) @ '' '') ?samples)
         = ''start 0.100000'' @ [newline] @ ''length 0.500000'' @ [newline]
             @ ''n 3'' @ [newline] @ ''10 20 30 ''"
    by (simp add: text_eval rne_unfold)
  have n: "(word_of_nat (length ?samples) :: 32 word) = 3" by simp
  have i: "[0..<length ?samples] = [0, 1, 2]" by (simp add: upt_conv_Cons)
  have g: "(\<lambda>i. if i < length ?samples then ?samples ! i else (0 :: 16 word))
         = (\<lambda>i. if i < 3 then ?samples ! i else 0)"
    by (simp add: numeral_3_eq_3)
  obtain written where
    "write_calibration_data ?cfg ?sv True (\<lambda>i. 0) = Inr written"
    "written = ''start '' @ fprintf_f 6 (start_range (radar_config ?cfg)) @ [newline]
            @ ''length '' @ fprintf_f 6 (length_range (radar_config ?cfg)) @ [newline]
            @ ''n '' @ decimal (length ?samples) @ [newline]
            @ concat (map (\<lambda>w. decimal (unat w) @ '' '') ?samples)"
    "scan_calibration (Some written) (\<lambda>i. 0)
       = Inr (case start_range (radar_config ?cfg) of
                Fin x \<Rightarrow> fl32 (real_of_int (rne (x * 10 ^ 6)) / 10 ^ 6)
              | PInf \<Rightarrow> PInf | NInf \<Rightarrow> NInf | NaN \<Rightarrow> NaN,
              case length_range (radar_config ?cfg) of
                Fin x \<Rightarrow> fl32 (real_of_int (rne (x * 10 ^ 6)) / 10 ^ 6)
              | PInf \<Rightarrow> PInf | NInf \<Rightarrow> NInf | NaN \<Rightarrow> NaN,
              word_of_nat (length ?samples),
              \<lambda>i. if i < length ?samples then ?samples ! i else 0,
              [0..<length ?samples])"
    using calibration_round_trip [OF h1 h2 h3, of ?cfg "\<lambda>i. 0" "\<lambda>i. 0"] by blast
  then have "write_calibration_data ?cfg ?sv True (\<lambda>i. 0) = Inr written
      \<and> written = ''start 0.100000'' @ [newline] @ ''length 0.500000'' @ [newline]
                  @ ''n 3'' @ [newline] @ ''10 20 30 ''
      \<and> scan_calibration (Some written) (\<lambda>i. 0)
          = Inr (fl32 (1 / 10), fl32 (1 / 2), 3,
                 \<lambda>i. if i < 3 then ?samples ! i else 0, [0, 1, 2])"
    unfolding s l cfloat.case b1 b2 t n i g by blast
  then show ?thesis using h1 h3 by blast
qed

theorem calibration_round_trip_counterexample:
  "fl32 (1 / 1024) = Fin (1 / 1024)
   \<and> write_calibration_data
       ((init_configuration 1)\<lparr>radar_config := (radar_config (init_configuration 1))
           \<lparr>start_range := Fin (1 / 1024), length_range := fl32 (1 / 2)\<rparr>\<rparr>)
       \<lparr>sweep_configuration_available = True, service_created = True,
        envelope_get_next = (\<lambda>k. Some [10, 20, 30])\<rparr> True (\<lambda>i. 0)
     = Inr (''start 0.000977'' @ [newline] @ ''length 0.500000'' @ [newline]
            @ ''n 3'' @ [newline] @ ''10 20 30 '')
   \<and> scan_calibration
        (Some (''start 0.000977'' @ [newline] @ ''length 0.500000'' @ [newline]
               @ ''n 3'' @ [newline] @ ''10 20 30 ''))
        (\<lambda>i. 0)
     = Inr (fl32 (977 / 1000000), fl32 (1 / 2), 3, (\<lambda>i. 0)(0 := 10, 1 := 20, 2 := 30), [0, 1, 2])
   \<and> fl32 (977 / 1000000) \<noteq> Fin (1 / 1024)"
proof -
  let ?cfg = "(init_configuration 1)\<lparr>radar_config := (radar_config (init_configuration 1))
           \<lparr>start_range := Fin (1 / 1024), length_range := fl32 (1 / 2)\<rparr>\<rparr>"
  let ?sv = "\<lparr>sweep_configuration_available = True, service_created = True,
        envelope_get_next = (\<lambda>k. Some [10, 20, 30 :: 16 word])\<rparr>"
  have f: "fl32 (1 / 2) = Fin (1 / 2)"
    by (simp add: fl32_eval)
  have a: "fl32 (1 / 1024) = Fin (1 / 1024)"
    by (simp add: fl32_eval)
  have sw: "get_one_sweep ?sv 0 (\<lambda>i. 0) (word_of_nat MAX_DATA_SIZE)
          = Inr (3, \<lambda>i. if i < length [10, 20, 30 :: 16 word] then [10, 20, 30] ! i else 0)"
    by (simp add: get_one_sweep_def min_u16_def MAX_DATA_SIZE_def)
  have cs: "create_sensor_service ?sv = Inr ()" by (simp add: create_sensor_service_def)
  have z3: "replicate 3 CHR ''0'' = ''000''" by (simp add: numeral_3_eq_3)
  have w: "write_calibration_data ?cfg ?sv True (\<lambda>i. 0)
           = Inr (''start 0.000977'' @ [newline] @ ''length 0.500000'' @ [newline]
                  @ ''n 3'' @ [newline] @ ''10 20 30 '')"
    unfolding write_calibration_data_def cs sw
    by (simp add: f text_eval rne_unfold upt_conv_Cons z3)
  have r: "scan_calibration
               (Some (''start 0.000977'' @ [newline] @ ''length 0.500000'' @ [newline]
                      @ ''n 3'' @ [newline] @ ''10 20 30 ''))
               (\<lambda>i. 0)
           = Inr (fl32 (977 / 1000000), fl32 (1 / 2), 3,
                  (\<lambda>i. 0)(0 := 10, 1 := 20, 2 := 30), [0, 1, 2])"
    apply (simp add: scan_calibration_def text_eval)
    apply (simp add: f fl32_eval numeral_2_eq_2)
    done
  have d: "fl32 (977 / 1000000) \<noteq> Fin (1 / 1024)"
    by (simp add: fl32_eval)
  from a w r d show ?thesis by blast
qed


end
